theory Spec2Isabelle
  imports Main
begin

section \<open>The board of \<^verbatim>\<open>tic_tac_toe.py\<close>\<close>

text \<open>
  \<^verbatim>\<open>class Mark(enum.Enum)\<close> has the two members \<^verbatim>\<open>X = "X"\<close> and \<^verbatim>\<open>O = "O"\<close>;
  they are \<open>Mark_X\<close> and \<open>Mark_O\<close> here (\<open>O\<close> is an operator of HOL), and
  \<open>mark_value\<close> is the attribute \<^verbatim>\<open>mark.value\<close>. A cell of the board is a Python string:
  \<^verbatim>\<open>" "\<close> when empty, otherwise the value of a mark.
\<close>

datatype Mark = Mark_X | Mark_O

fun mark_value :: "Mark \<Rightarrow> string" where
  "mark_value Mark_X = ''X''"
| "mark_value Mark_O = ''O''"

text \<open>
  The two exceptions the core can raise: \<^verbatim>\<open>ValueError("Invalid move")\<close>, raised by
  \<^verbatim>\<open>make_move\<close>, and the \<^verbatim>\<open>IndexError\<close> of a list subscript out of range.
\<close>

datatype error = ValueError | IndexError

text \<open>
  \<^verbatim>\<open>class Grid\<close>: a list of rows, each a list of cells, and the two counters.
  \<^verbatim>\<open>Grid.__init__\<close> builds three rows of three empty cells.
\<close>

record Grid =
  board :: "string list list"
  x_count :: int
  o_count :: int

definition Grid_init :: Grid where
  "Grid_init = \<lparr>board = replicate 3 (replicate 3 '' ''), x_count = 0, o_count = 0\<rparr>"

text \<open>
  The subscript \<^verbatim>\<open>self.board[row][col]\<close>. Every caller in the program passes
  non-negative coordinates (\<^verbatim>\<open>range(3)\<close> in the search, a pixel position divided by 100
  in the click handler), so coordinates are natural numbers; a coordinate beyond the list
  raises \<^verbatim>\<open>IndexError\<close>.
\<close>

definition cell :: "Grid \<Rightarrow> nat \<Rightarrow> nat \<Rightarrow> error + string" where
  "cell g row col =
     (if row < length (board g)
      then (if col < length (board g ! row)
            then Inr (board g ! row ! col)
            else Inl IndexError)
      else Inl IndexError)"

definition is_valid_move :: "Grid \<Rightarrow> nat \<Rightarrow> nat \<Rightarrow> error + bool" where
  "is_valid_move g row col =
     (case cell g row col of Inl e \<Rightarrow> Inl e | Inr s \<Rightarrow> Inr (s = '' ''))"

text \<open>
  The methods that mutate the grid return what the call produced (an exception or a
  value) together with the grid as the call left it. \<^verbatim>\<open>make_move\<close> raises before it has
  written anything.
\<close>

definition make_move :: "Grid \<Rightarrow> nat \<Rightarrow> nat \<Rightarrow> Mark \<Rightarrow> (error + unit) \<times> Grid" where
  "make_move g row col mark =
     (case is_valid_move g row col of
        Inl e \<Rightarrow> (Inl e, g)
      | Inr False \<Rightarrow> (Inl ValueError, g)
      | Inr True \<Rightarrow>
          (let g1 = g\<lparr>board := (board g)[row := (board g ! row)[col := mark_value mark]]\<rparr>
           in if mark = Mark_X
              then (Inr (), g1\<lparr>x_count := x_count g1 + 1\<rparr>)
              else (Inr (), g1\<lparr>o_count := o_count g1 + 1\<rparr>)))"

definition undo_move :: "Grid \<Rightarrow> nat \<Rightarrow> nat \<Rightarrow> (error + unit) \<times> Grid" where
  "undo_move g row col =
     (case cell g row col of
        Inl e \<Rightarrow> (Inl e, g)
      | Inr s \<Rightarrow>
          if s \<noteq> '' ''
          then (let g1 = (if s = mark_value Mark_X
                          then g\<lparr>x_count := x_count g - 1\<rparr>
                          else g\<lparr>o_count := o_count g - 1\<rparr>)
                in (Inr (), g1\<lparr>board := (board g1)[row := (board g1 ! row)[col := '' '']]\<rparr>))
          else (Inr (), g))"

subsection \<open>Lines\<close>

text \<open>
  The chained comparison \<^verbatim>\<open>a == b == c != " "\<close> reads \<open>a\<close> and \<open>b\<close>, stops with
  \<^verbatim>\<open>False\<close> when they differ, and only then reads \<open>c\<close>. \<open>same3_mark\<close> is the chain
  \<^verbatim>\<open>a == b == c == mark_value\<close> of \<^verbatim>\<open>evaluate\<close>.
\<close>

definition same3_nonempty :: "Grid \<Rightarrow> nat \<times> nat \<Rightarrow> nat \<times> nat \<Rightarrow> nat \<times> nat \<Rightarrow> error + bool" where
  "same3_nonempty g p q r =
     (case cell g (fst p) (snd p) of Inl e \<Rightarrow> Inl e | Inr a \<Rightarrow>
      (case cell g (fst q) (snd q) of Inl e \<Rightarrow> Inl e | Inr b \<Rightarrow>
       if a \<noteq> b then Inr False
       else (case cell g (fst r) (snd r) of Inl e \<Rightarrow> Inl e | Inr c \<Rightarrow>
             Inr (b = c \<and> c \<noteq> '' ''))))"

definition same3_mark :: "Grid \<Rightarrow> string \<Rightarrow> nat \<times> nat \<Rightarrow> nat \<times> nat \<Rightarrow> nat \<times> nat \<Rightarrow> error + bool" where
  "same3_mark g mv p q r =
     (case cell g (fst p) (snd p) of Inl e \<Rightarrow> Inl e | Inr a \<Rightarrow>
      (case cell g (fst q) (snd q) of Inl e \<Rightarrow> Inl e | Inr b \<Rightarrow>
       if a \<noteq> b then Inr False
       else (case cell g (fst r) (snd r) of Inl e \<Rightarrow> Inl e | Inr c \<Rightarrow>
             Inr (b = c \<and> c = mv))))"

text \<open>
  \<^verbatim>\<open>for i in range(3): if test(i): return True\<close>: the result says whether the loop
  returned. \<open>or_else\<close> goes on to the next statement when the one before did not return.
\<close>

fun any_hit :: "(nat \<Rightarrow> error + bool) \<Rightarrow> nat list \<Rightarrow> error + bool" where
  "any_hit test [] = Inr False"
| "any_hit test (i # rest) =
     (case test i of
        Inl e \<Rightarrow> Inl e
      | Inr True \<Rightarrow> Inr True
      | Inr False \<Rightarrow> any_hit test rest)"

definition or_else :: "error + bool \<Rightarrow> error + bool \<Rightarrow> error + bool" where
  "or_else first next_one =
     (case first of Inl e \<Rightarrow> Inl e | Inr True \<Rightarrow> Inr True | Inr False \<Rightarrow> next_one)"

definition is_terminal_state :: "Grid \<Rightarrow> error + bool" where
  "is_terminal_state g =
     or_else (any_hit (\<lambda>row. same3_nonempty g (row, 0) (row, 1) (row, 2)) [0..<3])
    (or_else (any_hit (\<lambda>col. same3_nonempty g (0, col) (1, col) (2, col)) [0..<3])
    (or_else (same3_nonempty g (0, 0) (1, 1) (2, 2))
    (or_else (same3_nonempty g (0, 2) (1, 1) (2, 0))
             (Inr (list_all (\<lambda>row. list_all (\<lambda>c. c \<noteq> '' '') row) (board g))))))"

text \<open>
  \<^verbatim>\<open>evaluate\<close>: the body of \<^verbatim>\<open>for mark in (Mark.X, Mark.O)\<close> returns as soon as one of
  the eight lines holds the mark three times.
\<close>

definition mark_has_line :: "Grid \<Rightarrow> Mark \<Rightarrow> error + bool" where
  "mark_has_line g mark =
     or_else (any_hit (\<lambda>row. same3_mark g (mark_value mark) (row, 0) (row, 1) (row, 2)) [0..<3])
    (or_else (any_hit (\<lambda>col. same3_mark g (mark_value mark) (0, col) (1, col) (2, col)) [0..<3])
    (or_else (same3_mark g (mark_value mark) (0, 0) (1, 1) (2, 2))
             (same3_mark g (mark_value mark) (0, 2) (1, 1) (2, 0))))"

fun evaluate_marks :: "Grid \<Rightarrow> Mark list \<Rightarrow> error + int" where
  "evaluate_marks g [] = Inr 0"
| "evaluate_marks g (mark # rest) =
     (case mark_has_line g mark of
        Inl e \<Rightarrow> Inl e
      | Inr True \<Rightarrow> Inr (if mark = Mark_X then 1 else - 1)
      | Inr False \<Rightarrow> evaluate_marks g rest)"

definition evaluate :: "Grid \<Rightarrow> error + int" where
  "evaluate g = evaluate_marks g [Mark_X, Mark_O]"

section \<open>The search\<close>

text \<open>
  \<^verbatim>\<open>best_val\<close> starts at \<^verbatim>\<open>-float("inf")\<close> or \<^verbatim>\<open>float("inf")\<close> and is afterwards an
  integer returned by \<^verbatim>\<open>evaluate\<close>; Python compares the two kinds exactly.
  \<^verbatim>\<open>max(a, b)\<close> keeps \<open>a\<close> unless \<open>b\<close> is greater, \<^verbatim>\<open>min(a, b)\<close> keeps \<open>a\<close> unless \<open>b\<close>
  is smaller.
\<close>

datatype number = MinusInf | IntVal int | PlusInf

fun number_less :: "number \<Rightarrow> number \<Rightarrow> bool" where
  "number_less MinusInf MinusInf = False"
| "number_less MinusInf _ = True"
| "number_less (IntVal a) MinusInf = False"
| "number_less (IntVal a) (IntVal b) = (a < b)"
| "number_less (IntVal a) PlusInf = True"
| "number_less PlusInf _ = False"

definition py_max :: "number \<Rightarrow> number \<Rightarrow> number" where
  "py_max a b = (if number_less a b then b else a)"

definition py_min :: "number \<Rightarrow> number \<Rightarrow> number" where
  "py_min a b = (if number_less b a then b else a)"

text \<open>
  The nested loops \<^verbatim>\<open>for row in range(3): for col in range(3)\<close> visit the cells in
  row-major order.
\<close>

definition cells :: "(nat \<times> nat) list" where
  "cells = [(row, col). row \<leftarrow> [0..<3], col \<leftarrow> [0..<3]]"

text \<open>
  A call of the search returns an exception or a value, the grid as the call left it, and
  the trace of the call: the grid after each \<^verbatim>\<open>make_move\<close> and each \<^verbatim>\<open>undo_move\<close>, in the
  order they happened. A call that runs out of fuel returns \<open>None\<close>.
\<close>

type_synonym 'a outcome = "(error + 'a) \<times> Grid \<times> Grid list"

text \<open>
  The three loops of the search have one body:
  \<^verbatim>\<open>
  if grid.is_valid_move(row, col):
      grid.make_move(row, col, mark)
      val = minimax(grid, ...)
      grid.undo_move(row, col)
      <update the running best with val>
  \<close>
  \<open>scan\<close> runs it over the cells that remain; \<open>recurse\<close> is the recursive call and
  \<open>update\<close> the last line. An exception leaves the loop at once, with the grid as it is.
\<close>

fun scan :: "(Grid \<Rightarrow> number outcome option) \<Rightarrow> Mark \<Rightarrow> ('a \<Rightarrow> nat \<times> nat \<Rightarrow> number \<Rightarrow> 'a)
    \<Rightarrow> (nat \<times> nat) list \<Rightarrow> 'a \<Rightarrow> Grid \<Rightarrow> 'a outcome option" where
  "scan recurse mark update [] best g = Some (Inr best, g, [])"
| "scan recurse mark update ((row, col) # rest) best g =
     (case is_valid_move g row col of
        Inl e \<Rightarrow> Some (Inl e, g, [])
      | Inr False \<Rightarrow> scan recurse mark update rest best g
      | Inr True \<Rightarrow>
          (case make_move g row col mark of
             (Inl e, g1) \<Rightarrow> Some (Inl e, g1, [])
           | (Inr _, g1) \<Rightarrow>
               (case recurse g1 of
                  None \<Rightarrow> None
                | Some (Inl e, g2, trace2) \<Rightarrow> Some (Inl e, g2, g1 # trace2)
                | Some (Inr val, g2, trace2) \<Rightarrow>
                    (case undo_move g2 row col of
                       (Inl e, g3) \<Rightarrow> Some (Inl e, g3, g1 # trace2)
                     | (Inr _, g3) \<Rightarrow>
                         (case scan recurse mark update rest (update best (row, col) val) g3 of
                            None \<Rightarrow> None
                          | Some (res, g4, trace4) \<Rightarrow>
                              Some (res, g4, g1 # trace2 @ g3 # trace4))))))"

text \<open>
  \<^verbatim>\<open>minimax(grid, depth, is_maximizing_player)\<close>. The fuel bounds the depth of the
  recursion; \<open>depth\<close> is the argument of the source, passed on and never read.
\<close>

primrec minimax :: "nat \<Rightarrow> Grid \<Rightarrow> int \<Rightarrow> bool \<Rightarrow> number outcome option" where
  "minimax 0 g depth is_maximizing_player = None"
| "minimax (Suc fuel) g depth is_maximizing_player =
     (case is_terminal_state g of
        Inl e \<Rightarrow> Some (Inl e, g, [])
      | Inr True \<Rightarrow>
          (case evaluate g of
             Inl e \<Rightarrow> Some (Inl e, g, [])
           | Inr v \<Rightarrow> Some (Inr (IntVal v), g, []))
      | Inr False \<Rightarrow>
          if is_maximizing_player
          then scan (\<lambda>g1. minimax fuel g1 (depth + 1) False) Mark_X
                 (\<lambda>best_val rc val. py_max best_val val) cells MinusInf g
          else scan (\<lambda>g1. minimax fuel g1 (depth + 1) True) Mark_O
                 (\<lambda>best_val rc val. py_min best_val val) cells PlusInf g)"

text \<open>
  \<^verbatim>\<open>find_best_move(grid)\<close>: the running best is the pair of \<^verbatim>\<open>best_move\<close> and
  \<^verbatim>\<open>best_val\<close>, replaced when \<^verbatim>\<open>val > best_val\<close>.
\<close>

definition better :: "(nat \<times> nat) option \<times> number \<Rightarrow> nat \<times> nat \<Rightarrow> number
    \<Rightarrow> (nat \<times> nat) option \<times> number" where
  "better best rc val = (if number_less (snd best) val then (Some rc, val) else best)"

definition find_best_move :: "nat \<Rightarrow> Grid \<Rightarrow> (nat \<times> nat) option outcome option" where
  "find_best_move fuel g =
     (case scan (\<lambda>g1. minimax fuel g1 0 False) Mark_X better cells (None, MinusInf) g of
        None \<Rightarrow> None
      | Some (Inl e, g1, trace) \<Rightarrow> Some (Inl e, g1, trace)
      | Some (Inr best, g1, trace) \<Rightarrow> Some (Inr (fst best), g1, trace))"

section \<open>The game loop\<close>

text \<open>
  The branch of \<^verbatim>\<open>TicTacToeUI.main\<close> for a \<^verbatim>\<open>MOUSEBUTTONDOWN\<close> event at the pixel
  \<open>(mouse_x, mouse_y)\<close>; drawing is left out. The value returned is the message of
  \<^verbatim>\<open>end_game\<close> when the handler ends the game, and \<open>None\<close> when the loop goes on. The trace
  holds the grid after each move of the handler and, between them, the trace of the search.
  \<open>ai_move\<close> is the statement \<^verbatim>\<open>if best_move: self.grid.make_move(...)\<close> and
  \<open>after_ai_move\<close> the last \<^verbatim>\<open>if\<close> of the handler, which reads \<^verbatim>\<open>evaluate\<close> to choose the
  message.
\<close>

definition ai_move :: "Grid \<Rightarrow> (nat \<times> nat) option \<Rightarrow> (error + unit) \<times> Grid \<times> Grid list" where
  "ai_move g best_move =
     (case best_move of
        None \<Rightarrow> (Inr (), g, [])
      | Some (r, c) \<Rightarrow> (case make_move g r c Mark_X of (res, g1) \<Rightarrow> (res, g1, [g1])))"

definition final_message :: "int \<Rightarrow> string" where
  "final_message v =
     (if v = 1 then ''AI wins!'' else if v = - 1 then ''Human wins!'' else ''Draw!'')"

definition after_ai_move :: "Grid \<Rightarrow> Grid list \<Rightarrow> string option outcome option" where
  "after_ai_move g trace =
     (case is_terminal_state g of
        Inl e \<Rightarrow> Some (Inl e, g, trace)
      | Inr False \<Rightarrow> Some (Inr None, g, trace)
      | Inr True \<Rightarrow>
          (case evaluate g of
             Inl e \<Rightarrow> Some (Inl e, g, trace)
           | Inr v \<Rightarrow> Some (Inr (Some (final_message v)), g, trace)))"

definition on_click :: "nat \<Rightarrow> Grid \<Rightarrow> nat \<times> nat \<Rightarrow> string option outcome option" where
  "on_click fuel g mouse =
     (let col = fst mouse div 100; row = snd mouse div 100 in
      case is_valid_move g row col of
        Inl e \<Rightarrow> Some (Inl e, g, [])
      | Inr False \<Rightarrow> Some (Inr None, g, [])
      | Inr True \<Rightarrow>
          (case make_move g row col Mark_O of
             (Inl e, g1) \<Rightarrow> Some (Inl e, g1, [])
           | (Inr _, g1) \<Rightarrow>
               (case is_terminal_state g1 of
                  Inl e \<Rightarrow> Some (Inl e, g1, [g1])
                | Inr True \<Rightarrow> Some (Inr (Some ''Human wins!''), g1, [g1])
                | Inr False \<Rightarrow>
                    (case find_best_move fuel g1 of
                       None \<Rightarrow> None
                     | Some (Inl e, g2, trace2) \<Rightarrow> Some (Inl e, g2, g1 # trace2)
                     | Some (Inr best_move, g2, trace2) \<Rightarrow>
                         (case ai_move g2 best_move of
                            (Inl e, g3, trace3) \<Rightarrow> Some (Inl e, g3, g1 # trace2)
                          | (Inr _, g3, trace3) \<Rightarrow>
                              after_ai_move g3 (g1 # trace2 @ trace3))))))"

text \<open>
  The loop of \<^verbatim>\<open>main\<close> over the clicks of a game, from the grid \<open>g\<close>: it stops when a
  handler ends the game or raises.
\<close>

fun play :: "nat \<Rightarrow> (nat \<times> nat) list \<Rightarrow> Grid \<Rightarrow> string option outcome option" where
  "play fuel [] g = Some (Inr None, g, [])"
| "play fuel (mouse # rest) g =
     (case on_click fuel g mouse of
        None \<Rightarrow> None
      | Some (Inl e, g1, trace1) \<Rightarrow> Some (Inl e, g1, trace1)
      | Some (Inr (Some message), g1, trace1) \<Rightarrow> Some (Inr (Some message), g1, trace1)
      | Some (Inr None, g1, trace1) \<Rightarrow>
          (case play fuel rest g1 of
             None \<Rightarrow> None
           | Some (res, g2, trace2) \<Rightarrow> Some (res, g2, trace1 @ trace2)))"

section \<open>Notions of the specification\<close>

text \<open>
  A grid as \<^verbatim>\<open>Grid.__init__\<close> builds it and the methods keep it: three rows of three
  cells. \<open>at\<close> reads a cell of such a board, \<open>put\<close> writes one, and \<open>placed\<close> is the grid
  after a mark has been put on a cell and counted.
\<close>

definition wf_grid :: "Grid \<Rightarrow> bool" where
  "wf_grid g \<longleftrightarrow> length (board g) = 3 \<and> list_all (\<lambda>row. length row = 3) (board g)"

definition at :: "string list list \<Rightarrow> nat \<times> nat \<Rightarrow> string" where
  "at b p = b ! fst p ! snd p"

definition put :: "string list list \<Rightarrow> nat \<times> nat \<Rightarrow> string \<Rightarrow> string list list" where
  "put b p v = b[fst p := (b ! fst p)[snd p := v]]"

definition placed :: "Grid \<Rightarrow> nat \<times> nat \<Rightarrow> Mark \<Rightarrow> Grid" where
  "placed g p mark =
     (if mark = Mark_X
      then g\<lparr>board := put (board g) p (mark_value mark), x_count := x_count g + 1\<rparr>
      else g\<lparr>board := put (board g) p (mark_value mark), o_count := o_count g + 1\<rparr>)"

text \<open>
  The eight lines: three rows, three columns, two diagonals. A line is complete when it
  holds one non-empty mark three times, and it is a line of a mark when it holds that
  mark three times.
\<close>

definition lines :: "((nat \<times> nat) \<times> (nat \<times> nat) \<times> (nat \<times> nat)) list" where
  "lines = [((row, 0), (row, 1), (row, 2)). row \<leftarrow> [0..<3]]
         @ [((0, col), (1, col), (2, col)). col \<leftarrow> [0..<3]]
         @ [((0, 0), (1, 1), (2, 2)), ((0, 2), (1, 1), (2, 0))]"

definition complete_line :: "string list list \<Rightarrow> (nat \<times> nat) \<times> (nat \<times> nat) \<times> (nat \<times> nat) \<Rightarrow> bool" where
  "complete_line b l =
     (case l of (p, q, r) \<Rightarrow> at b p \<noteq> '' '' \<and> at b p = at b q \<and> at b q = at b r)"

definition line_of :: "string list list \<Rightarrow> string \<Rightarrow> (nat \<times> nat) \<times> (nat \<times> nat) \<times> (nat \<times> nat) \<Rightarrow> bool" where
  "line_of b mv l = (case l of (p, q, r) \<Rightarrow> at b p = mv \<and> at b q = mv \<and> at b r = mv)"

definition has_complete_line :: "string list list \<Rightarrow> bool" where
  "has_complete_line b = list_ex (complete_line b) lines"

definition has_line_of :: "string list list \<Rightarrow> string \<Rightarrow> bool" where
  "has_line_of b mv = list_ex (line_of b mv) lines"

definition full :: "string list list \<Rightarrow> bool" where
  "full b = list_all (\<lambda>p. at b p \<noteq> '' '') cells"

definition empties :: "string list list \<Rightarrow> nat" where
  "empties b = length (filter (\<lambda>p. at b p = '' '') cells)"

text \<open>The difference of the two counters.\<close>

definition balance :: "Grid \<Rightarrow> int" where
  "balance g = x_count g - o_count g"

text \<open>What a call returned, when it returned a value.\<close>

definition returned :: "'a outcome option \<Rightarrow> 'a option" where
  "returned res = (case res of Some (Inr v, g, trace) \<Rightarrow> Some v | _ \<Rightarrow> None)"

section \<open>The value of a position\<close>

text \<open>
  What the search computes, without the grid being mutated and restored: \<open>terminal\<close> and
  \<open>score\<close> are the results of \<^verbatim>\<open>is_terminal_state\<close> and \<^verbatim>\<open>evaluate\<close> on a board of three
  rows of three cells, \<open>scan_value\<close> is the running best after the loop over the cells, and
  \<open>position_value\<close> the number \<^verbatim>\<open>minimax\<close> returns. The lemmas \<open>scan_refines\<close> and
  \<open>minimax_refines\<close> below prove that the code returns these values.
\<close>

definition terminal :: "string list list \<Rightarrow> bool" where
  "terminal b \<longleftrightarrow> has_complete_line b \<or> full b"

definition score :: "string list list \<Rightarrow> int" where
  "score b = (if has_line_of b ''X'' then 1 else if has_line_of b ''O'' then - 1 else 0)"

definition scan_value :: "(string list list \<Rightarrow> number) \<Rightarrow> string \<Rightarrow> ('a \<Rightarrow> nat \<times> nat \<Rightarrow> number \<Rightarrow> 'a)
    \<Rightarrow> (nat \<times> nat) list \<Rightarrow> 'a \<Rightarrow> string list list \<Rightarrow> 'a" where
  "scan_value f mv update cs best b =
     fold (\<lambda>p acc. if at b p = '' '' then update acc p (f (put b p mv)) else acc) cs best"

primrec position_value :: "nat \<Rightarrow> string list list \<Rightarrow> bool \<Rightarrow> number" where
  "position_value 0 b is_max = MinusInf"
| "position_value (Suc n) b is_max =
     (if terminal b then IntVal (score b)
      else if is_max
           then scan_value (\<lambda>b1. position_value n b1 False) ''X''
                  (\<lambda>best_val rc val. py_max best_val val) cells MinusInf b
           else scan_value (\<lambda>b1. position_value n b1 True) ''O''
                  (\<lambda>best_val rc val. py_min best_val val) cells PlusInf b)"

text \<open>The numbers \<^verbatim>\<open>evaluate\<close> can return.\<close>

definition is_score :: "number \<Rightarrow> bool" where
  "is_score x \<longleftrightarrow> x = IntVal (- 1) \<or> x = IntVal 0 \<or> x = IntVal 1"

text \<open>
  The score of the move \<open>p\<close> in \<^verbatim>\<open>find_best_move\<close>: what \<^verbatim>\<open>minimax(grid, 0, False)\<close>
  returns after \<^verbatim>\<open>make_move(row, col, Mark.X)\<close>.
\<close>

definition move_score :: "nat \<Rightarrow> Grid \<Rightarrow> nat \<times> nat \<Rightarrow> number option" where
  "move_score fuel g p =
     returned (minimax fuel (snd (make_move g (fst p) (snd p) Mark_X)) 0 False)"

text \<open>
  While the search of a position runs, the balance of the grid stays in a window of two
  values: the one it had at the call, and one more (\<open>X\<close> to move) or one less (\<open>O\<close> to move).
\<close>

definition in_window :: "Grid \<Rightarrow> bool \<Rightarrow> Grid \<Rightarrow> bool" where
  "in_window g is_max s \<longleftrightarrow>
     (if is_max then balance s = balance g \<or> balance s = balance g + 1
      else balance s = balance g \<or> balance s = balance g - 1)"

section \<open>Bounds on the value of a position\<close>

text \<open>
  A board of nine squares in row-major order, on which a bound on the value of a position
  is checked by a search that stops at the first move that proves it. \<open>to_board\<close> gives the
  board of the program.
\<close>

datatype square = Blank | Cross | Nought

fun render :: "square \<Rightarrow> string" where
  "render Blank = '' ''"
| "render Cross = ''X''"
| "render Nought = ''O''"

fun to_board :: "square list \<Rightarrow> string list list" where
  "to_board [a, b, c, d, e, f, g, h, i] =
     [[render a, render b, render c], [render d, render e, render f],
      [render g, render h, render i]]"
| "to_board _ = []"

fun won :: "square \<Rightarrow> square list \<Rightarrow> bool" where
  "won m [a, b, c, d, e, f, g, h, i] =
     ((a = m \<and> b = m \<and> c = m) \<or> (d = m \<and> e = m \<and> f = m) \<or> (g = m \<and> h = m \<and> i = m) \<or>
      (a = m \<and> d = m \<and> g = m) \<or> (b = m \<and> e = m \<and> h = m) \<or> (c = m \<and> f = m \<and> i = m) \<or>
      (a = m \<and> e = m \<and> i = m) \<or> (c = m \<and> e = m \<and> g = m))"
| "won m _ = False"

text \<open>The positions one move away, the centre first, then the corners, then the edges.\<close>

fun nexts :: "square \<Rightarrow> square list \<Rightarrow> square list list" where
  "nexts m [a, b, c, d, e, f, g, h, i] =
     (if e = Blank then [[a, b, c, d, m, f, g, h, i]] else []) @
     (if a = Blank then [[m, b, c, d, e, f, g, h, i]] else []) @
     (if c = Blank then [[a, b, m, d, e, f, g, h, i]] else []) @
     (if g = Blank then [[a, b, c, d, e, f, m, h, i]] else []) @
     (if i = Blank then [[a, b, c, d, e, f, g, h, m]] else []) @
     (if b = Blank then [[a, m, c, d, e, f, g, h, i]] else []) @
     (if d = Blank then [[a, b, c, m, e, f, g, h, i]] else []) @
     (if f = Blank then [[a, b, c, d, e, m, g, h, i]] else []) @
     (if h = Blank then [[a, b, c, d, e, f, g, m, i]] else [])"
| "nexts m _ = []"

fun some_of :: "('a \<Rightarrow> bool) \<Rightarrow> 'a list \<Rightarrow> bool" where
  "some_of P [] = False"
| "some_of P (x # xs) = (if P x then True else some_of P xs)"

fun each_of :: "('a \<Rightarrow> bool) \<Rightarrow> 'a list \<Rightarrow> bool" where
  "each_of P [] = True"
| "each_of P (x # xs) = (if P x then each_of P xs else False)"

definition square_score :: "square list \<Rightarrow> int" where
  "square_score b = (if won Cross b then 1 else if won Nought b then - 1 else 0)"

definition square_terminal :: "square list \<Rightarrow> bool" where
  "square_terminal b =
     (if won Cross b then True else if won Nought b then True else Blank \<notin> set b)"

text \<open>
  \<open>at_least n k b is_max\<close> checks that the value of the position is at least \<open>k\<close>, and
  \<open>at_most\<close> that it is at most \<open>k\<close>.
\<close>

primrec at_least :: "nat \<Rightarrow> int \<Rightarrow> square list \<Rightarrow> bool \<Rightarrow> bool" where
  "at_least 0 k b is_max = False"
| "at_least (Suc n) k b is_max =
    (if square_terminal b then k \<le> square_score b
     else if is_max then some_of (\<lambda>b1. at_least n k b1 False) (nexts Cross b)
     else each_of (\<lambda>b1. at_least n k b1 True) (nexts Nought b))"

primrec at_most :: "nat \<Rightarrow> int \<Rightarrow> square list \<Rightarrow> bool \<Rightarrow> bool" where
  "at_most 0 k b is_max = False"
| "at_most (Suc n) k b is_max =
    (if square_terminal b then square_score b \<le> k
     else if is_max then each_of (\<lambda>b1. at_most n k b1 False) (nexts Cross b)
     else some_of (\<lambda>b1. at_most n k b1 True) (nexts Nought b))"

section \<open>Example grids\<close>

text \<open>
  A grid on which both players hold a line (no game reaches it), and a grid of a game in
  which \<open>X\<close> has completed a diagonal; the grid of the scenario in which \<open>X\<close> can complete
  the top row; and a grid on which two moves of \<open>X\<close> win.
\<close>

definition both_lines_grid :: Grid where
  "both_lines_grid =
     \<lparr>board = [[''X'', ''X'', ''X''], [''O'', ''O'', ''O''], ['' '', '' '', '' '']],
      x_count = 3, o_count = 3\<rparr>"

definition diagonal_grid :: Grid where
  "diagonal_grid =
     \<lparr>board = [[''X'', ''O'', '' ''], [''O'', ''X'', '' ''], ['' '', '' '', ''X'']],
      x_count = 3, o_count = 2\<rparr>"

definition win_grid :: Grid where
  "win_grid =
     \<lparr>board = [[''X'', ''X'', '' ''], [''O'', ''O'', '' ''], ['' '', '' '', '' '']],
      x_count = 2, o_count = 2\<rparr>"

definition tie_grid :: Grid where
  "tie_grid =
     \<lparr>board = [[''X'', ''O'', ''X''], [''O'', ''X'', ''O''], ['' '', ''O'', '' '']],
      x_count = 3, o_count = 4\<rparr>"


section \<open>The board operations on a grid of three rows of three cells\<close>

lemma cells_eq:
  "cells = [(0, 0), (0, 1), (0, 2), (1, 0), (1, 1), (1, 2), (2, 0), (2, 1), (2, 2)]"
  by (simp add: cells_def upt_rec)

lemma upt3: "[0..<3] = [0, 1, 2]"
  by (simp add: upt_rec)

lemma lines_eq:
  "lines = [((0, 0), (0, 1), (0, 2)), ((1, 0), (1, 1), (1, 2)), ((2, 0), (2, 1), (2, 2)),
            ((0, 0), (1, 0), (2, 0)), ((0, 1), (1, 1), (2, 1)), ((0, 2), (1, 2), (2, 2)),
            ((0, 0), (1, 1), (2, 2)), ((0, 2), (1, 1), (2, 0))]"
  by (simp add: lines_def upt3)

lemma in_cells: "(row, col) \<in> set cells \<longleftrightarrow> row < 3 \<and> col < 3"
  by (force simp: cells_def)

lemma length3: "length xs = 3 \<Longrightarrow> \<exists>a b c. xs = [a, b, c]"
  by (cases xs; simp; cases "tl xs"; simp; cases "tl (tl xs)"; simp)

lemma wf_grid_shape:
  assumes "wf_grid g"
  shows "\<exists>a b c d e f h i j. board g = [[a, b, c], [d, e, f], [h, i, j]]"
proof -
  from assms obtain r0 r1 r2 where rows: "board g = [r0, r1, r2]"
    using length3 unfolding wf_grid_def by blast
  from assms rows have "length r0 = 3" "length r1 = 3" "length r2 = 3"
    by (simp_all add: wf_grid_def)
  then obtain a b c d e f h i j where "r0 = [a, b, c]" "r1 = [d, e, f]" "r2 = [h, i, j]"
    using length3 by metis
  with rows show ?thesis by simp
qed

lemma wf_row: "wf_grid g \<Longrightarrow> row < 3 \<Longrightarrow> length (board g ! row) = 3"
  by (simp add: wf_grid_def list_all_length)

lemma wf_grid_in_range:
  assumes "wf_grid g" "p \<in> set cells"
  shows "fst p < length (board g)" "snd p < length (board g ! fst p)"
  using assms by (cases p; simp add: in_cells wf_row; simp add: wf_grid_def)+

lemma cell_wf:
  "wf_grid g \<Longrightarrow> row < 3 \<Longrightarrow> col < 3 \<Longrightarrow> cell g row col = Inr (at (board g) (row, col))"
  by (simp add: cell_def wf_row at_def) (simp add: wf_grid_def)

lemma is_valid_move_wf:
  "wf_grid g \<Longrightarrow> row < 3 \<Longrightarrow> col < 3
    \<Longrightarrow> is_valid_move g row col = Inr (at (board g) (row, col) = '' '')"
  by (simp add: is_valid_move_def cell_wf)

lemma any_hit_Inr:
  "(\<And>i. i \<in> set xs \<Longrightarrow> test i = Inr (P i)) \<Longrightarrow> any_hit test xs = Inr (\<exists>i\<in>set xs. P i)"
  by (induction xs) (auto split: bool.split)

lemma or_else_Inr: "or_else (Inr a) (Inr b) = Inr (a \<or> b)"
  by (simp add: or_else_def split: bool.split)

lemma same3_nonempty_wf:
  assumes "wf_grid g" "fst p < 3" "snd p < 3" "fst q < 3" "snd q < 3" "fst r < 3" "snd r < 3"
  shows "same3_nonempty g p q r = Inr (complete_line (board g) (p, q, r))"
  using assms by (auto simp: same3_nonempty_def cell_wf complete_line_def)

lemma same3_mark_wf:
  assumes "wf_grid g" "fst p < 3" "snd p < 3" "fst q < 3" "snd q < 3" "fst r < 3" "snd r < 3"
  shows "same3_mark g mv p q r = Inr (line_of (board g) mv (p, q, r))"
  using assms by (auto simp: same3_mark_def cell_wf line_of_def)

lemma all_cells_wf:
  assumes "wf_grid g"
  shows "list_all (\<lambda>row. list_all (\<lambda>c. c \<noteq> '' '') row) (board g) = full (board g)"
proof -
  from wf_grid_shape[OF assms] obtain a b c d e f h i j
    where "board g = [[a, b, c], [d, e, f], [h, i, j]]" by blast
  then show ?thesis by (simp add: full_def cells_eq at_def)
qed

lemma is_terminal_state_wf:
  assumes "wf_grid g"
  shows "is_terminal_state g = Inr (terminal (board g))"
proof -
  have rows: "any_hit (\<lambda>row. same3_nonempty g (row, 0) (row, 1) (row, 2)) [0..<3]
      = Inr (\<exists>row\<in>set [0..<3]. complete_line (board g) ((row, 0), (row, 1), (row, 2)))"
    by (rule any_hit_Inr) (simp add: same3_nonempty_wf assms)
  have cols: "any_hit (\<lambda>col. same3_nonempty g (0, col) (1, col) (2, col)) [0..<3]
      = Inr (\<exists>col\<in>set [0..<3]. complete_line (board g) ((0, col), (1, col), (2, col)))"
    by (rule any_hit_Inr) (simp add: same3_nonempty_wf assms)
  show ?thesis
    unfolding is_terminal_state_def rows cols terminal_def has_complete_line_def
    by (simp add: same3_nonempty_wf assms or_else_Inr all_cells_wf lines_eq upt3 disj_ac)
qed

lemma mark_has_line_wf:
  assumes "wf_grid g"
  shows "mark_has_line g mark = Inr (has_line_of (board g) (mark_value mark))"
proof -
  have rows: "any_hit (\<lambda>row. same3_mark g (mark_value mark) (row, 0) (row, 1) (row, 2)) [0..<3]
      = Inr (\<exists>row\<in>set [0..<3]. line_of (board g) (mark_value mark) ((row, 0), (row, 1), (row, 2)))"
    by (rule any_hit_Inr) (simp add: same3_mark_wf assms)
  have cols: "any_hit (\<lambda>col. same3_mark g (mark_value mark) (0, col) (1, col) (2, col)) [0..<3]
      = Inr (\<exists>col\<in>set [0..<3]. line_of (board g) (mark_value mark) ((0, col), (1, col), (2, col)))"
    by (rule any_hit_Inr) (simp add: same3_mark_wf assms)
  show ?thesis
    unfolding mark_has_line_def rows cols has_line_of_def
    by (simp add: same3_mark_wf assms or_else_Inr lines_eq upt3 disj_ac)
qed

lemma evaluate_wf:
  assumes "wf_grid g"
  shows "evaluate g = Inr (score (board g))"
  using mark_has_line_wf[OF assms, of Mark_X] mark_has_line_wf[OF assms, of Mark_O]
  by (simp add: evaluate_def score_def)

subsection \<open>Making and undoing a move\<close>

lemma make_move_wf:
  assumes "wf_grid g" "row < 3" "col < 3" "at (board g) (row, col) = '' ''"
  shows "make_move g row col mark = (Inr (), placed g (row, col) mark)"
  using assms by (simp add: make_move_def is_valid_move_wf placed_def put_def)

lemma make_move_occupied:
  assumes "wf_grid g" "row < 3" "col < 3" "at (board g) (row, col) \<noteq> '' ''"
  shows "make_move g row col mark = (Inl ValueError, g)"
  using assms by (simp add: make_move_def is_valid_move_wf)

lemma length_put: "length (put b p v) = length b"
  by (simp add: put_def)

lemma length_put_row: "length (put b p v ! n) = length (b ! n)"
  by (cases "fst p < length b") (simp_all add: put_def nth_list_update list_update_beyond)

lemma wf_grid_placed: "wf_grid g \<Longrightarrow> wf_grid (placed g p mark)"
  by (simp add: wf_grid_def placed_def list_all_length length_put length_put_row)

lemma board_placed: "board (placed g p mark) = put (board g) p (mark_value mark)"
  by (simp add: placed_def)

lemma balance_placed:
  "balance (placed g p mark) = (if mark = Mark_X then balance g + 1 else balance g - 1)"
  by (simp add: placed_def balance_def)

lemma at_put_same:
  "fst p < length b \<Longrightarrow> snd p < length (b ! fst p) \<Longrightarrow> at (put b p v) p = v"
  by (simp add: at_def put_def)

lemma at_put_other: "q \<noteq> p \<Longrightarrow> at (put b p v) q = at b q"
proof (cases "fst p < length b")
  case True
  assume "q \<noteq> p"
  then have "fst q \<noteq> fst p \<or> snd q \<noteq> snd p" by (auto simp: prod_eq_iff)
  with True show ?thesis by (auto simp: at_def put_def nth_list_update)
next
  case False
  then show ?thesis by (simp add: at_def put_def list_update_beyond)
qed

lemma put_put_same: "at b p = v \<Longrightarrow> put (put b p w) p v = b"
proof (cases "fst p < length b")
  case True
  assume v: "at b p = v"
  have "(b ! fst p)[snd p := v] = b ! fst p"
    unfolding v[symmetric] at_def by (rule list_update_id)
  with True show ?thesis by (simp add: put_def)
next
  case False
  then show ?thesis by (simp add: put_def list_update_beyond)
qed

lemma mark_value_not_empty: "mark_value mark \<noteq> '' ''"
  by (cases mark) simp_all

lemma undo_move_after_make_move:
  assumes "cell g row col = Inr '' ''"
  shows "make_move g row col mark = (Inr (), placed g (row, col) mark)"
    and "undo_move (placed g (row, col) mark) row col = (Inr (), g)"
proof -
  let ?g1 = "placed g (row, col) mark"
  from assms have range: "row < length (board g)" "col < length (board g ! row)"
    and empty: "at (board g) (row, col) = '' ''"
    by (auto simp: cell_def at_def split: if_splits)
  show "make_move g row col mark = (Inr (), ?g1)"
    using assms by (simp add: make_move_def is_valid_move_def placed_def put_def)
  have cell1: "cell ?g1 row col = Inr (mark_value mark)"
    using range by (simp add: cell_def board_placed put_def)
  have restored: "(board ?g1)[row := (board ?g1 ! row)[col := '' '']] = board g"
    using put_put_same[OF empty, of "mark_value mark"] by (simp add: put_def board_placed)
  show "undo_move ?g1 row col = (Inr (), g)"
  proof (cases mark)
    case Mark_X
    have "undo_move ?g1 row col = (Inr (), ?g1\<lparr>x_count := x_count ?g1 - 1, board := board g\<rparr>)"
      using Mark_X restored cell1 by (simp add: undo_move_def)
    also have "?g1\<lparr>x_count := x_count ?g1 - 1, board := board g\<rparr> = g"
      using Mark_X by (simp add: placed_def)
    finally show ?thesis .
  next
    case Mark_O
    have "undo_move ?g1 row col = (Inr (), ?g1\<lparr>o_count := o_count ?g1 - 1, board := board g\<rparr>)"
      using Mark_O restored cell1 by (simp add: undo_move_def)
    also have "?g1\<lparr>o_count := o_count ?g1 - 1, board := board g\<rparr> = g"
      using Mark_O by (simp add: placed_def)
    finally show ?thesis .
  qed
qed

lemma undo_move_placed:
  assumes "wf_grid g" "row < 3" "col < 3" "at (board g) (row, col) = '' ''"
  shows "undo_move (placed g (row, col) mark) row col = (Inr (), g)"
  using undo_move_after_make_move(2)[of g row col mark] cell_wf[OF assms(1,2,3)] assms(4)
  by simp

lemma undo_move_wf:
  assumes "wf_grid g" "row < 3" "col < 3"
  shows "\<exists>g1. undo_move g row col = (Inr (), g1)"
  using assms by (simp add: undo_move_def cell_wf Let_def)

subsection \<open>The number of empty cells\<close>

lemma empties_card: "empties b = card {q \<in> set cells. at b q = '' ''}"
proof -
  have "distinct cells" by (simp add: cells_eq)
  then show ?thesis
    unfolding empties_def by (simp add: distinct_length_filter Int_def conj_commute)
qed

lemma empties_put:
  assumes "p \<in> set cells" "at b p = '' ''" "v \<noteq> '' ''"
    "fst p < length b" "snd p < length (b ! fst p)"
  shows "empties (put b p v) < empties b"
proof -
  let ?A = "{q \<in> set cells. at (put b p v) q = '' ''}"
  let ?B = "{q \<in> set cells. at b q = '' ''}"
  have same: "at (put b p v) p = v" by (rule at_put_same[OF assms(4,5)])
  have "?A \<subseteq> ?B"
  proof
    fix q assume q: "q \<in> ?A"
    then have "q \<noteq> p" using same assms(3) by auto
    with q show "q \<in> ?B" by (simp add: at_put_other)
  qed
  moreover have "p \<in> ?B" using assms by simp
  moreover have "p \<notin> ?A" using same assms(3) by simp
  ultimately have "?A \<subset> ?B" by blast
  then have "card ?A < card ?B" by (intro psubset_card_mono) simp_all
  then show ?thesis by (simp add: empties_card)
qed

lemma empties_placed:
  assumes "wf_grid g" "p \<in> set cells" "at (board g) p = '' ''"
  shows "empties (board (placed g p mark)) < empties (board g)"
  unfolding board_placed
  by (rule empties_put[OF assms(2,3) mark_value_not_empty wf_grid_in_range[OF assms(1,2)]])

lemma not_full_empty: "\<not> full b \<Longrightarrow> \<exists>p\<in>set cells. at b p = '' ''"
  by (auto simp: full_def list_all_iff)

lemma full_empties: "full b \<longleftrightarrow> empties b = 0"
  by (auto simp: full_def empties_def list_all_iff filter_empty_conv)

section \<open>Terminal states, scores and undoing a move\<close>

lemma full_iff: "full b \<longleftrightarrow> (\<forall>p\<in>set cells. at b p \<noteq> '' '')"
  by (simp add: full_def list_all_iff)

lemma has_complete_line_iff: "has_complete_line b \<longleftrightarrow> (\<exists>l\<in>set lines. complete_line b l)"
  by (simp add: has_complete_line_def list_ex_iff)

lemma has_line_of_iff: "has_line_of b mv \<longleftrightarrow> (\<exists>l\<in>set lines. line_of b mv l)"
  by (simp add: has_line_of_def list_ex_iff)

lemma line_of_complete: "mv \<noteq> '' '' \<Longrightarrow> line_of b mv l \<Longrightarrow> complete_line b l"
  by (cases l) (auto simp: line_of_def complete_line_def)

lemma has_line_of_complete: "mv \<noteq> '' '' \<Longrightarrow> has_line_of b mv \<Longrightarrow> has_complete_line b"
  by (auto simp: has_line_of_iff has_complete_line_iff intro: line_of_complete)

text \<open>
  Claim C2. On every grid of three rows of three cells, \<^verbatim>\<open>is_terminal_state\<close> returns
  true if and only if every one of the nine cells is non-empty or at least one of the
  eight lines holds three identical non-empty marks.
\<close>

theorem is_terminal_state_iff:
  assumes "wf_grid g"
  shows "is_terminal_state g =
           Inr ((\<forall>p\<in>set cells. at (board g) p \<noteq> '' '')
                \<or> (\<exists>l\<in>set lines. complete_line (board g) l))"
  unfolding is_terminal_state_wf[OF assms] terminal_def full_iff has_complete_line_iff
  by (simp add: disj_commute)

theorem is_terminal_state_iff_witness:
  "wf_grid diagonal_grid \<and> \<not> full (board diagonal_grid)
     \<and> is_terminal_state diagonal_grid = Inr True"
proof -
  have wf: "wf_grid diagonal_grid" by (simp add: wf_grid_def diagonal_grid_def)
  have nf: "\<not> full (board diagonal_grid)"
    by (simp add: full_def cells_eq at_def diagonal_grid_def)
  have "complete_line (board diagonal_grid) ((0, 0), (1, 1), (2, 2))"
    by (simp add: complete_line_def at_def diagonal_grid_def)
  then have "\<exists>l\<in>set lines. complete_line (board diagonal_grid) l"
    by (auto simp: lines_eq)
  with is_terminal_state_iff[OF wf] wf nf show ?thesis by simp
qed

text \<open>
  Claim C3, as amended. On every grid of three rows of three cells, \<^verbatim>\<open>evaluate\<close> returns
  \<open>+1\<close> exactly when a line is all \<open>X\<close>, and \<open>-1\<close> exactly when a line is all \<open>O\<close> and no line
  is all \<open>X\<close>; on a full board with no complete line it returns \<open>0\<close>. The claim as
  written (\<open>-1\<close> exactly when a complete line is all \<open>O\<close>) fails on a board where both
  players hold a line, since the lines of \<open>X\<close> are scanned first.
\<close>

theorem evaluate_by_lines:
  assumes "wf_grid g"
  shows "(evaluate g = Inr 1 \<longleftrightarrow> has_line_of (board g) ''X'')
       \<and> (evaluate g = Inr (- 1) \<longleftrightarrow> has_line_of (board g) ''O'' \<and> \<not> has_line_of (board g) ''X'')
       \<and> (full (board g) \<and> \<not> has_complete_line (board g) \<longrightarrow> evaluate g = Inr 0)"
proof -
  have "\<not> has_complete_line (board g) \<Longrightarrow> \<not> has_line_of (board g) ''X''"
       "\<not> has_complete_line (board g) \<Longrightarrow> \<not> has_line_of (board g) ''O''"
    using has_line_of_complete[of "''X''" "board g"] has_line_of_complete[of "''O''" "board g"]
    by auto
  then show ?thesis
    unfolding evaluate_wf[OF assms] score_def by auto
qed

theorem evaluate_by_lines_witness:
  "wf_grid diagonal_grid \<and> has_line_of (board diagonal_grid) ''X''
     \<and> evaluate diagonal_grid = Inr 1"
proof -
  have wf: "wf_grid diagonal_grid" by (simp add: wf_grid_def diagonal_grid_def)
  have "line_of (board diagonal_grid) ''X'' ((0, 0), (1, 1), (2, 2))"
    by (simp add: line_of_def at_def diagonal_grid_def)
  then have x: "has_line_of (board diagonal_grid) ''X''"
    by (auto simp: has_line_of_iff lines_eq)
  with evaluate_by_lines[OF wf] wf show ?thesis by simp
qed

text \<open>
  The grid on which the claim as written fails: a line is all \<open>O\<close>, and the result is
  not \<open>-1\<close>.
\<close>

theorem evaluate_exactly_counterexample:
  "wf_grid both_lines_grid \<and> has_complete_line (board both_lines_grid)
     \<and> \<not> (evaluate both_lines_grid = Inr (- 1) \<longleftrightarrow> has_line_of (board both_lines_grid) ''O'')"
proof -
  have wf: "wf_grid both_lines_grid" by (simp add: wf_grid_def both_lines_grid_def)
  have "line_of (board both_lines_grid) ''O'' ((1, 0), (1, 1), (1, 2))"
    by (simp add: line_of_def at_def both_lines_grid_def)
  then have o: "has_line_of (board both_lines_grid) ''O''"
    by (auto simp: has_line_of_iff lines_eq)
  have "line_of (board both_lines_grid) ''X'' ((0, 0), (0, 1), (0, 2))"
    by (simp add: line_of_def at_def both_lines_grid_def)
  then have x: "has_line_of (board both_lines_grid) ''X''"
    by (auto simp: has_line_of_iff lines_eq)
  have "evaluate both_lines_grid = Inr 1"
    using x by (simp add: evaluate_wf[OF wf] score_def)
  with wf o has_line_of_complete[OF _ o] show ?thesis by simp
qed

text \<open>
  Claim C10. On a board where both \<open>X\<close> and \<open>O\<close> hold a complete line, \<^verbatim>\<open>evaluate\<close>
  returns \<open>+1\<close>.
\<close>

theorem evaluate_both_players:
  assumes "wf_grid g" "has_line_of (board g) ''X''" "has_line_of (board g) ''O''"
  shows "evaluate g = Inr 1"
  using assms(2) by (simp add: evaluate_wf[OF assms(1)] score_def)

theorem evaluate_both_players_witness:
  "wf_grid both_lines_grid \<and> has_line_of (board both_lines_grid) ''X''
     \<and> has_line_of (board both_lines_grid) ''O'' \<and> evaluate both_lines_grid = Inr 1"
proof -
  have wf: "wf_grid both_lines_grid" by (simp add: wf_grid_def both_lines_grid_def)
  have "line_of (board both_lines_grid) ''O'' ((1, 0), (1, 1), (1, 2))"
    by (simp add: line_of_def at_def both_lines_grid_def)
  then have o: "has_line_of (board both_lines_grid) ''O''"
    by (auto simp: has_line_of_iff lines_eq)
  have "line_of (board both_lines_grid) ''X'' ((0, 0), (0, 1), (0, 2))"
    by (simp add: line_of_def at_def both_lines_grid_def)
  then have x: "has_line_of (board both_lines_grid) ''X''"
    by (auto simp: has_line_of_iff lines_eq)
  from evaluate_both_players[OF wf x o] wf x o show ?thesis by simp
qed

text \<open>
  Claim C4. For every grid, every empty cell and every mark, \<^verbatim>\<open>make_move\<close> succeeds
  and \<^verbatim>\<open>undo_move\<close> on the same cell then gives back the grid as it was: the same
  cells and the same counters.
\<close>

theorem make_move_then_undo_move:
  assumes "is_valid_move g row col = Inr True"
  shows "fst (make_move g row col mark) = Inr ()
       \<and> undo_move (snd (make_move g row col mark)) row col = (Inr (), g)"
proof -
  from assms have "cell g row col = Inr '' ''"
    by (auto simp: is_valid_move_def split: sum.splits)
  from undo_move_after_make_move[OF this, of mark] show ?thesis by simp
qed

theorem make_move_then_undo_move_witness:
  "is_valid_move diagonal_grid 1 2 = Inr True
     \<and> fst (make_move diagonal_grid 1 2 Mark_O) = Inr ()
     \<and> snd (make_move diagonal_grid 1 2 Mark_O) =
         \<lparr>board = [[''X'', ''O'', '' ''], [''O'', ''X'', ''O''], ['' '', '' '', ''X'']],
          x_count = 3, o_count = 3\<rparr>
     \<and> undo_move (snd (make_move diagonal_grid 1 2 Mark_O)) 1 2 = (Inr (), diagonal_grid)"
proof -
  have v: "is_valid_move diagonal_grid 1 2 = Inr True"
    by (simp add: is_valid_move_def cell_def diagonal_grid_def)
  have m: "snd (make_move diagonal_grid 1 2 Mark_O) =
         \<lparr>board = [[''X'', ''O'', '' ''], [''O'', ''X'', ''O''], ['' '', '' '', ''X'']],
          x_count = 3, o_count = 3\<rparr>"
    by (simp add: make_move_def is_valid_move_def cell_def diagonal_grid_def)
  from make_move_then_undo_move[OF v, of Mark_O] v m show ?thesis by simp
qed

section \<open>The search returns the value of the position and restores the grid\<close>

lemma scan_value_Nil: "scan_value f mv update [] best b = best"
  by (simp add: scan_value_def)

lemma scan_value_Cons:
  "scan_value f mv update (p # cs) best b =
     scan_value f mv update cs
       (if at b p = '' '' then update best p (f (put b p mv)) else best) b"
  by (simp add: scan_value_def)

lemma scan_value_append:
  "scan_value f mv update (cs @ ds) best b =
     scan_value f mv update ds (scan_value f mv update cs best b) b"
  by (simp add: scan_value_def)

lemma scan_refines:
  assumes wf: "wf_grid g"
    and inv: "Q g"
    and sub: "set cs \<subseteq> set cells"
    and rec: "\<And>p. p \<in> set cs \<Longrightarrow> at (board g) p = '' '' \<Longrightarrow>
                Q (placed g p mark) \<and>
                (\<exists>trace. recurse (placed g p mark)
                           = Some (Inr (f (board (placed g p mark))), placed g p mark, trace)
                         \<and> (\<forall>s\<in>set trace. Q s))"
  shows "\<exists>trace. scan recurse mark update cs best g
                   = Some (Inr (scan_value f (mark_value mark) update cs best (board g)), g, trace)
                 \<and> (\<forall>s\<in>set trace. Q s)"
  using sub rec
proof (induction cs arbitrary: best)
  case Nil
  show ?case by (simp add: scan_value_Nil)
next
  case (Cons p rest)
  obtain row col where p: "p = (row, col)" by (cases p)
  from Cons.prems(1) p have range: "row < 3" "col < 3" by (simp_all add: in_cells)
  have valid: "is_valid_move g row col = Inr (at (board g) p = '' '')"
    unfolding p by (rule is_valid_move_wf[OF wf range])
  have rest: "\<exists>trace. scan recurse mark update rest best' g
                   = Some (Inr (scan_value f (mark_value mark) update rest best' (board g)), g, trace)
                 \<and> (\<forall>s\<in>set trace. Q s)" for best'
    using Cons.IH[of best'] Cons.prems by simp
  show ?case
  proof (cases "at (board g) p = '' ''")
    case False
    with valid rest[of best] show ?thesis
      by (simp add: p scan_value_Cons)
  next
    case True
    let ?g1 = "placed g p mark"
    from Cons.prems(2)[of p] True obtain trace2
      where q1: "Q ?g1"
        and r: "recurse ?g1 = Some (Inr (f (board ?g1)), ?g1, trace2)"
        and q2: "\<forall>s\<in>set trace2. Q s"
      by auto
    have mk: "make_move g row col mark = (Inr (), ?g1)"
      unfolding p by (rule make_move_wf[OF wf range True[unfolded p]])
    have un: "undo_move ?g1 row col = (Inr (), g)"
      unfolding p by (rule undo_move_placed[OF wf range True[unfolded p]])
    let ?best = "update best p (f (board ?g1))"
    from rest[of ?best] obtain trace4
      where r4: "scan recurse mark update rest ?best g
                   = Some (Inr (scan_value f (mark_value mark) update rest ?best (board g)), g, trace4)"
        and q4: "\<forall>s\<in>set trace4. Q s"
      by blast
    have "scan recurse mark update (p # rest) best g
            = Some (Inr (scan_value f (mark_value mark) update rest ?best (board g)), g,
                    ?g1 # trace2 @ g # trace4)"
      using valid True mk r un r4 by (simp add: p)
    moreover have "scan_value f (mark_value mark) update (p # rest) best (board g)
            = scan_value f (mark_value mark) update rest ?best (board g)"
      using True by (simp add: scan_value_Cons board_placed)
    moreover have "\<forall>s\<in>set (?g1 # trace2 @ g # trace4). Q s"
      using q1 q2 q4 inv by auto
    ultimately show ?thesis by metis
  qed
qed

lemma in_window_self: "in_window g is_max g"
  by (simp add: in_window_def)

lemma in_window_placed_X: "in_window g True (placed g p Mark_X)"
  by (simp add: in_window_def balance_placed)

lemma in_window_placed_O: "in_window g False (placed g p Mark_O)"
  by (simp add: in_window_def balance_placed)

lemma in_window_step_X: "in_window (placed g p Mark_X) False s \<Longrightarrow> in_window g True s"
  by (auto simp: in_window_def balance_placed)

lemma in_window_step_O: "in_window (placed g p Mark_O) True s \<Longrightarrow> in_window g False s"
  by (auto simp: in_window_def balance_placed)

lemma minimax_refines:
  "wf_grid g \<Longrightarrow> empties (board g) < fuel \<Longrightarrow>
     \<exists>trace. minimax fuel g depth is_max
               = Some (Inr (position_value fuel (board g) is_max), g, trace)
            \<and> (\<forall>s\<in>set trace. in_window g is_max s)"
proof (induction fuel arbitrary: g depth is_max)
  case 0
  then show ?case by simp
next
  case (Suc fuel)
  note wf = Suc.prems(1)
  have tst: "is_terminal_state g = Inr (terminal (board g))"
    by (rule is_terminal_state_wf[OF wf])
  show ?case
  proof (cases "terminal (board g)")
    case True
    then show ?thesis by (simp add: tst evaluate_wf[OF wf])
  next
    case False
    have smaller: "empties (board (placed g p mark)) < fuel"
      if "p \<in> set cells" "at (board g) p = '' ''" for p mark
      using empties_placed[OF wf that, of mark] Suc.prems(2) by simp
    show ?thesis
    proof (cases is_max)
      case True
      have "\<exists>trace. scan (\<lambda>g1. minimax fuel g1 (depth + 1) False) Mark_X
                       (\<lambda>best_val rc val. py_max best_val val) cells MinusInf g
                   = Some (Inr (scan_value (\<lambda>b1. position_value fuel b1 False) (mark_value Mark_X)
                                  (\<lambda>best_val rc val. py_max best_val val) cells MinusInf (board g)),
                           g, trace)
                 \<and> (\<forall>s\<in>set trace. in_window g True s)"
      proof (rule scan_refines[OF wf in_window_self subset_refl])
        fix p assume p: "p \<in> set cells" "at (board g) p = '' ''"
        from Suc.IH[OF wf_grid_placed[OF wf, of p Mark_X] smaller[OF p, of Mark_X], of "depth + 1" False]
        obtain trace where
          "minimax fuel (placed g p Mark_X) (depth + 1) False
             = Some (Inr (position_value fuel (board (placed g p Mark_X)) False),
                     placed g p Mark_X, trace)"
          "\<forall>s\<in>set trace. in_window (placed g p Mark_X) False s"
          by blast
        then show "in_window g True (placed g p Mark_X) \<and>
            (\<exists>trace. minimax fuel (placed g p Mark_X) (depth + 1) False
                       = Some (Inr (position_value fuel (board (placed g p Mark_X)) False),
                               placed g p Mark_X, trace)
                     \<and> (\<forall>s\<in>set trace. in_window g True s))"
          using in_window_placed_X in_window_step_X by blast
      qed
      with True False show ?thesis by (simp add: tst)
    next
      case is_min: False
      have "\<exists>trace. scan (\<lambda>g1. minimax fuel g1 (depth + 1) True) Mark_O
                       (\<lambda>best_val rc val. py_min best_val val) cells PlusInf g
                   = Some (Inr (scan_value (\<lambda>b1. position_value fuel b1 True) (mark_value Mark_O)
                                  (\<lambda>best_val rc val. py_min best_val val) cells PlusInf (board g)),
                           g, trace)
                 \<and> (\<forall>s\<in>set trace. in_window g False s)"
      proof (rule scan_refines[OF wf in_window_self subset_refl])
        fix p assume p: "p \<in> set cells" "at (board g) p = '' ''"
        from Suc.IH[OF wf_grid_placed[OF wf, of p Mark_O] smaller[OF p, of Mark_O], of "depth + 1" True]
        obtain trace where
          "minimax fuel (placed g p Mark_O) (depth + 1) True
             = Some (Inr (position_value fuel (board (placed g p Mark_O)) True),
                     placed g p Mark_O, trace)"
          "\<forall>s\<in>set trace. in_window (placed g p Mark_O) True s"
          by blast
        then show "in_window g False (placed g p Mark_O) \<and>
            (\<exists>trace. minimax fuel (placed g p Mark_O) (depth + 1) True
                       = Some (Inr (position_value fuel (board (placed g p Mark_O)) True),
                               placed g p Mark_O, trace)
                     \<and> (\<forall>s\<in>set trace. in_window g False s))"
          using in_window_placed_O in_window_step_O by blast
      qed
      with is_min False show ?thesis by (simp add: tst)
    qed
  qed
qed

text \<open>The pair of best move and best value that the loop of \<^verbatim>\<open>find_best_move\<close> ends with.\<close>

lemma find_best_move_refines:
  assumes wf: "wf_grid g" and fuel: "empties (board g) < fuel"
  shows "\<exists>trace. find_best_move fuel g
             = Some (Inr (fst (scan_value (\<lambda>b1. position_value fuel b1 False) ''X'' better
                                 cells (None, MinusInf) (board g))), g, trace)
            \<and> (\<forall>s\<in>set trace. in_window g True s)"
proof -
  have "\<exists>trace. scan (\<lambda>g1. minimax fuel g1 0 False) Mark_X better cells (None, MinusInf) g
                   = Some (Inr (scan_value (\<lambda>b1. position_value fuel b1 False) (mark_value Mark_X)
                                  better cells (None, MinusInf) (board g)), g, trace)
                 \<and> (\<forall>s\<in>set trace. in_window g True s)"
  proof (rule scan_refines[OF wf in_window_self subset_refl])
    fix p assume p: "p \<in> set cells" "at (board g) p = '' ''"
    have "empties (board (placed g p Mark_X)) < fuel"
      using empties_placed[OF wf p, of Mark_X] fuel by simp
    from minimax_refines[OF wf_grid_placed[OF wf, of p Mark_X] this, of 0 False]
    obtain trace where
      "minimax fuel (placed g p Mark_X) 0 False
         = Some (Inr (position_value fuel (board (placed g p Mark_X)) False),
                 placed g p Mark_X, trace)"
      "\<forall>s\<in>set trace. in_window (placed g p Mark_X) False s"
      by blast
    then show "in_window g True (placed g p Mark_X) \<and>
        (\<exists>trace. minimax fuel (placed g p Mark_X) 0 False
                   = Some (Inr (position_value fuel (board (placed g p Mark_X)) False),
                           placed g p Mark_X, trace)
                 \<and> (\<forall>s\<in>set trace. in_window g True s))"
      using in_window_placed_X in_window_step_X by blast
  qed
  then show ?thesis by (auto simp: find_best_move_def)
qed

section \<open>The numbers the search returns\<close>

lemma number_less_irrefl: "\<not> number_less a a"
  by (cases a) simp_all

lemma number_less_trans: "number_less a b \<Longrightarrow> number_less b c \<Longrightarrow> number_less a c"
  by (cases a; cases b; cases c) simp_all

lemma number_less_total: "\<not> number_less a b \<Longrightarrow> number_less a c \<Longrightarrow> number_less b c"
  by (cases a; cases b; cases c) simp_all

lemma number_less_total': "number_less a b \<Longrightarrow> \<not> number_less c b \<Longrightarrow> number_less a c"
  by (cases a; cases b; cases c) simp_all

lemma number_less_antisym: "\<not> number_less a b \<Longrightarrow> \<not> number_less b a \<Longrightarrow> a = b"
  by (cases a; cases b) simp_all

lemma is_score_above_MinusInf: "is_score v \<Longrightarrow> number_less MinusInf v"
  by (auto simp: is_score_def)

lemma is_score_below_PlusInf: "is_score v \<Longrightarrow> number_less v PlusInf"
  by (auto simp: is_score_def)

lemma is_score_le_1: "is_score v \<Longrightarrow> \<not> number_less (IntVal 1) v"
  by (auto simp: is_score_def)

lemma is_score_score: "is_score (IntVal (score b))"
  by (simp add: is_score_def score_def)

lemma py_max_cases: "py_max a b = a \<or> py_max a b = b"
  by (simp add: py_max_def)

lemma py_min_cases: "py_min a b = a \<or> py_min a b = b"
  by (simp add: py_min_def)

lemma py_max_MinusInf: "py_max MinusInf v = v"
  by (cases v) (simp_all add: py_max_def)

lemma py_min_PlusInf: "py_min PlusInf v = v"
  by (cases v) (simp_all add: py_min_def)

lemma py_max_ge_left: "\<not> number_less a k \<Longrightarrow> \<not> number_less (py_max a b) k"
  by (cases a; cases b; cases k) (auto simp: py_max_def)

lemma py_max_ge_right: "\<not> number_less b k \<Longrightarrow> \<not> number_less (py_max a b) k"
  by (cases a; cases b; cases k) (auto simp: py_max_def)

lemma py_max_le: "\<not> number_less k a \<Longrightarrow> \<not> number_less k b \<Longrightarrow> \<not> number_less k (py_max a b)"
  by (simp add: py_max_def)

lemma py_min_le_left: "\<not> number_less k a \<Longrightarrow> \<not> number_less k (py_min a b)"
  by (cases a; cases b; cases k) (auto simp: py_min_def)

lemma py_min_le_right: "\<not> number_less k b \<Longrightarrow> \<not> number_less k (py_min a b)"
  by (cases a; cases b; cases k) (auto simp: py_min_def)

lemma py_min_ge: "\<not> number_less a k \<Longrightarrow> \<not> number_less b k \<Longrightarrow> \<not> number_less (py_min a b) k"
  by (simp add: py_min_def)

subsection \<open>The running best of a loop\<close>

lemma scan_value_cong:
  "(\<And>p. p \<in> set cs \<Longrightarrow> at b p = '' '' \<Longrightarrow> f (put b p mv) = f' (put b p mv))
     \<Longrightarrow> scan_value f mv update cs best b = scan_value f' mv update cs best b"
  by (induction cs arbitrary: best) (simp_all add: scan_value_Nil scan_value_Cons)

lemma scan_value_no_empty:
  "(\<And>p. p \<in> set cs \<Longrightarrow> at b p \<noteq> '' '') \<Longrightarrow> scan_value f mv update cs best b = best"
  by (induction cs arbitrary: best) (simp_all add: scan_value_Nil scan_value_Cons)

lemma scan_max_ge_best:
  "\<not> number_less best k
     \<Longrightarrow> \<not> number_less (scan_value f mv (\<lambda>best_val rc val. py_max best_val val) cs best b) k"
  by (induction cs arbitrary: best) (auto simp: scan_value_Nil scan_value_Cons py_max_ge_left)

lemma scan_max_ge_child:
  "p \<in> set cs \<Longrightarrow> at b p = '' '' \<Longrightarrow> \<not> number_less (f (put b p mv)) k
     \<Longrightarrow> \<not> number_less (scan_value f mv (\<lambda>best_val rc val. py_max best_val val) cs best b) k"
proof (induction cs arbitrary: best)
  case Nil
  then show ?case by simp
next
  case (Cons c cs)
  show ?case
  proof (cases "c = p")
    case True
    with Cons.prems show ?thesis
      by (simp add: scan_value_Cons scan_max_ge_best py_max_ge_right)
  next
    case False
    with Cons show ?thesis by (simp add: scan_value_Cons)
  qed
qed

lemma scan_max_le:
  "\<not> number_less k best
     \<Longrightarrow> (\<And>p. p \<in> set cs \<Longrightarrow> at b p = '' '' \<Longrightarrow> \<not> number_less k (f (put b p mv)))
     \<Longrightarrow> \<not> number_less k (scan_value f mv (\<lambda>best_val rc val. py_max best_val val) cs best b)"
  by (induction cs arbitrary: best) (auto simp: scan_value_Nil scan_value_Cons py_max_le)

lemma scan_max_in:
  "scan_value f mv (\<lambda>best_val rc val. py_max best_val val) cs best b = best
     \<or> (\<exists>p\<in>set cs. at b p = '' ''
           \<and> scan_value f mv (\<lambda>best_val rc val. py_max best_val val) cs best b = f (put b p mv))"
proof (induction cs arbitrary: best)
  case Nil
  show ?case by (simp add: scan_value_Nil)
next
  case (Cons c cs)
  show ?case
    using Cons.IH[of best] Cons.IH[of "py_max best (f (put b c mv))"]
      py_max_cases[of best "f (put b c mv)"]
    by (auto simp: scan_value_Cons)
qed

lemma scan_min_le_best:
  "\<not> number_less k best
     \<Longrightarrow> \<not> number_less k (scan_value f mv (\<lambda>best_val rc val. py_min best_val val) cs best b)"
  by (induction cs arbitrary: best) (auto simp: scan_value_Nil scan_value_Cons py_min_le_left)

lemma scan_min_le_child:
  "p \<in> set cs \<Longrightarrow> at b p = '' '' \<Longrightarrow> \<not> number_less k (f (put b p mv))
     \<Longrightarrow> \<not> number_less k (scan_value f mv (\<lambda>best_val rc val. py_min best_val val) cs best b)"
proof (induction cs arbitrary: best)
  case Nil
  then show ?case by simp
next
  case (Cons c cs)
  show ?case
  proof (cases "c = p")
    case True
    with Cons.prems show ?thesis
      by (simp add: scan_value_Cons scan_min_le_best py_min_le_right)
  next
    case False
    with Cons show ?thesis by (simp add: scan_value_Cons)
  qed
qed

lemma scan_min_ge:
  "\<not> number_less best k
     \<Longrightarrow> (\<And>p. p \<in> set cs \<Longrightarrow> at b p = '' '' \<Longrightarrow> \<not> number_less (f (put b p mv)) k)
     \<Longrightarrow> \<not> number_less (scan_value f mv (\<lambda>best_val rc val. py_min best_val val) cs best b) k"
  by (induction cs arbitrary: best) (auto simp: scan_value_Nil scan_value_Cons py_min_ge)

lemma scan_min_in:
  "scan_value f mv (\<lambda>best_val rc val. py_min best_val val) cs best b = best
     \<or> (\<exists>p\<in>set cs. at b p = '' ''
           \<and> scan_value f mv (\<lambda>best_val rc val. py_min best_val val) cs best b = f (put b p mv))"
proof (induction cs arbitrary: best)
  case Nil
  show ?case by (simp add: scan_value_Nil)
next
  case (Cons c cs)
  show ?case
    using Cons.IH[of best] Cons.IH[of "py_min best (f (put b c mv))"]
      py_min_cases[of best "f (put b c mv)"]
    by (auto simp: scan_value_Cons)
qed

subsection \<open>The value of a position is a score\<close>

lemma position_value_is_score:
  "wf_grid g \<Longrightarrow> empties (board g) < n \<Longrightarrow> is_score (position_value n (board g) is_max)"
proof (induction n arbitrary: g is_max)
  case 0
  then show ?case by simp
next
  case (Suc n)
  note wf = Suc.prems(1)
  show ?case
  proof (cases "terminal (board g)")
    case True
    then show ?thesis by (simp add: is_score_score)
  next
    case False
    then have "\<not> full (board g)" by (simp add: terminal_def)
    then obtain p0 where p0: "p0 \<in> set cells" "at (board g) p0 = '' ''"
      using not_full_empty by blast
    have child: "is_score (position_value n (put (board g) p (mark_value mark)) m)"
      if "p \<in> set cells" "at (board g) p = '' ''" for p mark m
      using Suc.IH[OF wf_grid_placed[OF wf, of p mark], of m]
        empties_placed[OF wf that, of mark] Suc.prems(2)
      by (simp add: board_placed)
    show ?thesis
    proof (cases is_max)
      case True
      let ?r = "scan_value (\<lambda>b1. position_value n b1 False) ''X''
                  (\<lambda>best_val rc val. py_max best_val val) cells MinusInf (board g)"
      have c0: "is_score (position_value n (put (board g) p0 ''X'') False)"
        using child[OF p0, of Mark_X False] by simp
      have "\<not> number_less ?r (position_value n (put (board g) p0 ''X'') False)"
        by (rule scan_max_ge_child[OF p0 number_less_irrefl])
      with is_score_above_MinusInf[OF c0] have "?r \<noteq> MinusInf" by auto
      with scan_max_in[of "\<lambda>b1. position_value n b1 False" "''X''" cells MinusInf "board g"]
      obtain p where "p \<in> set cells" "at (board g) p = '' ''"
        "?r = position_value n (put (board g) p ''X'') False"
        by auto
      with child[of p Mark_X False] have "is_score ?r" by simp
      with True False show ?thesis by simp
    next
      case is_min: False
      let ?r = "scan_value (\<lambda>b1. position_value n b1 True) ''O''
                  (\<lambda>best_val rc val. py_min best_val val) cells PlusInf (board g)"
      have c0: "is_score (position_value n (put (board g) p0 ''O'') True)"
        using child[OF p0, of Mark_O True] by simp
      have "\<not> number_less (position_value n (put (board g) p0 ''O'') True) ?r"
        by (rule scan_min_le_child[OF p0 number_less_irrefl])
      with is_score_below_PlusInf[OF c0] have "?r \<noteq> PlusInf" by auto
      with scan_min_in[of "\<lambda>b1. position_value n b1 True" "''O''" cells PlusInf "board g"]
      obtain p where "p \<in> set cells" "at (board g) p = '' ''"
        "?r = position_value n (put (board g) p ''O'') True"
        by auto
      with child[of p Mark_O True] have "is_score ?r" by simp
      with is_min False show ?thesis by simp
    qed
  qed
qed

subsection \<open>More fuel does not change the value\<close>

lemma position_value_fuel:
  "wf_grid g \<Longrightarrow> empties (board g) < n \<Longrightarrow> empties (board g) < n'
     \<Longrightarrow> position_value n (board g) is_max = position_value n' (board g) is_max"
proof (induction n arbitrary: n' g is_max)
  case 0
  then show ?case by simp
next
  case (Suc n)
  note wf = Suc.prems(1)
  from Suc.prems(3) obtain m' where n': "n' = Suc m'" by (cases n') auto
  have child: "position_value n (put (board g) p (mark_value mark)) m
             = position_value m' (put (board g) p (mark_value mark)) m"
    if "p \<in> set cells" "at (board g) p = '' ''" for p mark m
    using Suc.IH[OF wf_grid_placed[OF wf, of p mark], of m' m]
      empties_placed[OF wf that, of mark] Suc.prems(2,3) n'
    by (simp add: board_placed)
  have "scan_value (\<lambda>b1. position_value n b1 False) ''X''
          (\<lambda>best_val rc val. py_max best_val val) cells MinusInf (board g)
      = scan_value (\<lambda>b1. position_value m' b1 False) ''X''
          (\<lambda>best_val rc val. py_max best_val val) cells MinusInf (board g)"
    using child[of _ Mark_X False] by (intro scan_value_cong) simp
  moreover have "scan_value (\<lambda>b1. position_value n b1 True) ''O''
          (\<lambda>best_val rc val. py_min best_val val) cells PlusInf (board g)
      = scan_value (\<lambda>b1. position_value m' b1 True) ''O''
          (\<lambda>best_val rc val. py_min best_val val) cells PlusInf (board g)"
    using child[of _ Mark_O True] by (intro scan_value_cong) simp
  ultimately show ?case by (simp add: n')
qed

section \<open>The move that \<^verbatim>\<open>find_best_move\<close> keeps\<close>

lemma better_keep: "\<not> number_less v w \<Longrightarrow> better (bm, v) q w = (bm, v)"
  by (simp add: better_def)

lemma better_take: "number_less v w \<Longrightarrow> better (bm, v) q w = (Some q, w)"
  by (simp add: better_def)

lemma scan_better_keep:
  "(\<And>q. q \<in> set ys \<Longrightarrow> at b q = '' '' \<Longrightarrow> \<not> number_less v (f (put b q mv)))
     \<Longrightarrow> scan_value f mv better ys (bm, v) b = (bm, v)"
  by (induction ys) (simp_all add: scan_value_Nil scan_value_Cons better_keep)

lemma scan_better_first:
  assumes "\<And>q. q \<in> set xs \<Longrightarrow> at b q \<noteq> '' ''"
    and "at b p = '' ''"
    and "number_less MinusInf (f (put b p mv))"
    and "\<And>q. q \<in> set ys \<Longrightarrow> at b q = '' '' \<Longrightarrow> \<not> number_less (f (put b p mv)) (f (put b q mv))"
  shows "scan_value f mv better (xs @ p # ys) (None, MinusInf) b = (Some p, f (put b p mv))"
proof -
  have "scan_value f mv better xs (None, MinusInf) b = (None, MinusInf)"
    using assms(1) by (rule scan_value_no_empty)
  then show ?thesis
    using assms(2,3) scan_better_keep[of ys b "f (put b p mv)" f mv "Some p"] assms(4)
    by (simp add: scan_value_append scan_value_Cons better_take)
qed

lemma scan_better_char:
  assumes "\<And>q. q \<in> set cs \<Longrightarrow> at b q = '' '' \<Longrightarrow> number_less MinusInf (f (put b q mv))"
  shows "(scan_value f mv better cs (None, MinusInf) b = (None, MinusInf)
            \<and> (\<forall>q\<in>set cs. at b q \<noteq> '' ''))
       \<or> (\<exists>xs p ys. cs = xs @ p # ys \<and> at b p = '' ''
            \<and> scan_value f mv better cs (None, MinusInf) b = (Some p, f (put b p mv))
            \<and> (\<forall>q\<in>set xs. at b q = '' '' \<longrightarrow> number_less (f (put b q mv)) (f (put b p mv)))
            \<and> (\<forall>q\<in>set ys. at b q = '' '' \<longrightarrow> \<not> number_less (f (put b p mv)) (f (put b q mv))))"
  using assms
proof (induction cs rule: rev_induct)
  case Nil
  show ?case by (simp add: scan_value_Nil)
next
  case (snoc c cs)
  let ?val = "\<lambda>q. f (put b q mv)"
  have step: "scan_value f mv better (cs @ [c]) (None, MinusInf) b
      = (if at b c = '' '' then better (scan_value f mv better cs (None, MinusInf) b) c (?val c)
         else scan_value f mv better cs (None, MinusInf) b)"
    by (simp add: scan_value_append scan_value_Cons scan_value_Nil)
  from snoc.IH snoc.prems
  consider (none) "scan_value f mv better cs (None, MinusInf) b = (None, MinusInf)"
      "\<forall>q\<in>set cs. at b q \<noteq> '' ''"
    | (some) xs p ys where "cs = xs @ p # ys" "at b p = '' ''"
      "scan_value f mv better cs (None, MinusInf) b = (Some p, ?val p)"
      "\<forall>q\<in>set xs. at b q = '' '' \<longrightarrow> number_less (?val q) (?val p)"
      "\<forall>q\<in>set ys. at b q = '' '' \<longrightarrow> \<not> number_less (?val p) (?val q)"
    by auto
  then show ?case
  proof cases
    case none
    show ?thesis
    proof (cases "at b c = '' ''")
      case False
      with none step show ?thesis by simp
    next
      case True
      then have "number_less MinusInf (?val c)" using snoc.prems[of c] by simp
      then have "scan_value f mv better (cs @ [c]) (None, MinusInf) b = (Some c, ?val c)"
        using step True none(1) by (simp add: better_take)
      with True none(2) have "cs @ [c] = cs @ c # [] \<and> at b c = '' ''
            \<and> scan_value f mv better (cs @ [c]) (None, MinusInf) b = (Some c, ?val c)
            \<and> (\<forall>q\<in>set cs. at b q = '' '' \<longrightarrow> number_less (?val q) (?val c))
            \<and> (\<forall>q\<in>set []. at b q = '' '' \<longrightarrow> \<not> number_less (?val c) (?val q))"
        by simp
      then show ?thesis by blast
    qed
  next
    case some
    show ?thesis
    proof (cases "at b c = '' '' \<and> number_less (?val p) (?val c)")
      case True
      then have r: "scan_value f mv better (cs @ [c]) (None, MinusInf) b = (Some c, ?val c)"
        using step some(3) by (simp add: better_take)
      have "number_less (?val q) (?val c)" if "q \<in> set cs" "at b q = '' ''" for q
      proof -
        from that(1) some(1) consider "q \<in> set xs" | "q = p" | "q \<in> set ys" by auto
        then show ?thesis
        proof cases
          case 1
          with some(4) that(2) True show ?thesis by (blast intro: number_less_trans)
        next
          case 2
          with True show ?thesis by simp
        next
          case 3
          with some(5) that(2) True show ?thesis by (blast intro: number_less_total)
        qed
      qed
      with r True have "cs @ [c] = cs @ c # [] \<and> at b c = '' ''
            \<and> scan_value f mv better (cs @ [c]) (None, MinusInf) b = (Some c, ?val c)
            \<and> (\<forall>q\<in>set cs. at b q = '' '' \<longrightarrow> number_less (?val q) (?val c))
            \<and> (\<forall>q\<in>set []. at b q = '' '' \<longrightarrow> \<not> number_less (?val c) (?val q))"
        by simp
      then show ?thesis by blast
    next
      case False
      then have r: "scan_value f mv better (cs @ [c]) (None, MinusInf) b = (Some p, ?val p)"
        using step some(3) by (auto simp: better_keep)
      from False some(5)
      have "\<forall>q\<in>set (ys @ [c]). at b q = '' '' \<longrightarrow> \<not> number_less (?val p) (?val q)"
        by auto
      with r some have "cs @ [c] = xs @ p # (ys @ [c]) \<and> at b p = '' ''
            \<and> scan_value f mv better (cs @ [c]) (None, MinusInf) b = (Some p, ?val p)
            \<and> (\<forall>q\<in>set xs. at b q = '' '' \<longrightarrow> number_less (?val q) (?val p))
            \<and> (\<forall>q\<in>set (ys @ [c]). at b q = '' '' \<longrightarrow> \<not> number_less (?val p) (?val q))"
        by simp
      then show ?thesis by blast
    qed
  qed
qed

lemma move_score_wf:
  assumes wf: "wf_grid g" and fuel: "empties (board g) < fuel"
    and p: "p \<in> set cells" "at (board g) p = '' ''"
  shows "move_score fuel g p = Some (position_value fuel (put (board g) p ''X'') False)"
proof -
  obtain row col where rc: "p = (row, col)" by (cases p)
  with p have range: "row < 3" "col < 3" by (simp_all add: in_cells)
  have mk: "make_move g row col Mark_X = (Inr (), placed g p Mark_X)"
    unfolding rc by (rule make_move_wf[OF wf range p(2)[unfolded rc]])
  have "empties (board (placed g p Mark_X)) < fuel"
    using empties_placed[OF wf p, of Mark_X] fuel by simp
  from minimax_refines[OF wf_grid_placed[OF wf, of p Mark_X] this, of 0 False] mk
  show ?thesis by (auto simp: move_score_def returned_def rc board_placed)
qed

lemma is_valid_move_cells:
  "wf_grid g \<Longrightarrow> p \<in> set cells
     \<Longrightarrow> is_valid_move g (fst p) (snd p) = Inr True \<longleftrightarrow> at (board g) p = '' ''"
  by (cases p) (simp add: is_valid_move_wf in_cells)

text \<open>
  Claim C5. On every grid of three rows of three cells, a call of \<^verbatim>\<open>minimax\<close> (at any
  depth, in either mode) or of \<^verbatim>\<open>find_best_move\<close> with enough fuel returns a value and
  leaves the grid exactly as it was before the call: each \<^verbatim>\<open>make_move\<close> of the search has
  been undone.
\<close>

theorem search_restores_grid:
  assumes "wf_grid g" "empties (board g) < fuel"
  shows "(\<exists>val trace. minimax fuel g depth is_max = Some (Inr val, g, trace))
       \<and> (\<exists>move trace. find_best_move fuel g = Some (Inr move, g, trace))"
  using minimax_refines[OF assms, of depth is_max] find_best_move_refines[OF assms]
  by blast

theorem search_restores_grid_witness:
  "wf_grid tie_grid \<and> empties (board tie_grid) < 3
     \<and> (\<exists>val trace. minimax 3 tie_grid 0 True = Some (Inr val, tie_grid, trace))
     \<and> (\<exists>move trace. find_best_move 3 tie_grid = Some (Inr move, tie_grid, trace))"
proof -
  have wf: "wf_grid tie_grid" by (simp add: wf_grid_def tie_grid_def)
  have e: "empties (board tie_grid) < 3"
    by (simp add: empties_def cells_eq at_def tie_grid_def)
  from search_restores_grid[OF wf e, of 0 True] wf e show ?thesis by blast
qed

text \<open>
  Claim C6. \<^verbatim>\<open>find_best_move\<close> scans the nine cells in row-major order. When the board
  has no empty cell it returns \<open>None\<close> and raises nothing. Otherwise it returns an empty
  cell \<open>p\<close> whose score is strictly greater than the score of every empty cell scanned
  before it, and not smaller than the score of any empty cell scanned after it: among
  the cells of the best score, the one scanned first.
\<close>

theorem find_best_move_first_maximum:
  assumes "wf_grid g" "empties (board g) < fuel"
  shows "(full (board g) \<longrightarrow> returned (find_best_move fuel g) = Some None)
       \<and> (\<not> full (board g) \<longrightarrow>
            (\<exists>xs p ys v. cells = xs @ p # ys
               \<and> returned (find_best_move fuel g) = Some (Some p)
               \<and> is_valid_move g (fst p) (snd p) = Inr True
               \<and> move_score fuel g p = Some v
               \<and> (\<forall>q\<in>set xs. is_valid_move g (fst q) (snd q) = Inr True
                     \<longrightarrow> (\<exists>w. move_score fuel g q = Some w \<and> number_less w v))
               \<and> (\<forall>q\<in>set ys. is_valid_move g (fst q) (snd q) = Inr True
                     \<longrightarrow> (\<exists>w. move_score fuel g q = Some w \<and> \<not> number_less v w))))"
proof -
  note wf = assms(1) and fuel = assms(2)
  let ?f = "\<lambda>b1. position_value fuel b1 False"
  let ?val = "\<lambda>q. ?f (put (board g) q ''X'')"
  let ?r = "scan_value ?f ''X'' better cells (None, MinusInf) (board g)"
  have ret: "returned (find_best_move fuel g) = Some (fst ?r)"
    using find_best_move_refines[OF wf fuel] by (auto simp: returned_def)
  have sc: "move_score fuel g q = Some (?val q)" if "q \<in> set cells" "at (board g) q = '' ''" for q
    by (rule move_score_wf[OF wf fuel that])
  have fin: "number_less MinusInf (?val q)" if "q \<in> set cells" "at (board g) q = '' ''" for q
  proof -
    have "empties (board (placed g q Mark_X)) < fuel"
      using empties_placed[OF wf that, of Mark_X] fuel by simp
    from position_value_is_score[OF wf_grid_placed[OF wf, of q Mark_X] this, of False]
    show ?thesis by (simp add: board_placed is_score_above_MinusInf)
  qed
  from scan_better_char[of cells "board g" ?f "''X''", OF fin]
  consider (none) "?r = (None, MinusInf)" "\<forall>q\<in>set cells. at (board g) q \<noteq> '' ''"
    | (some) xs p ys where "cells = xs @ p # ys" "at (board g) p = '' ''"
      "?r = (Some p, ?val p)"
      "\<forall>q\<in>set xs. at (board g) q = '' '' \<longrightarrow> number_less (?val q) (?val p)"
      "\<forall>q\<in>set ys. at (board g) q = '' '' \<longrightarrow> \<not> number_less (?val p) (?val q)"
    by blast
  then show ?thesis
  proof cases
    case none
    then show ?thesis using ret by (simp add: full_iff)
  next
    case some
    have "set cells = set xs \<union> {p} \<union> set ys"
      using arg_cong[OF some(1), of set] by simp
    then have inc: "p \<in> set cells" "set xs \<subseteq> set cells" "set ys \<subseteq> set cells"
      by auto
    have nf: "\<not> full (board g)" using some(2) inc(1) by (auto simp: full_iff)
    have a: "returned (find_best_move fuel g) = Some (Some p)" using ret some(3) by simp
    have b: "is_valid_move g (fst p) (snd p) = Inr True"
      using is_valid_move_cells[OF wf inc(1)] some(2) by simp
    have c: "move_score fuel g p = Some (?val p)" by (rule sc[OF inc(1) some(2)])
    have d: "\<forall>q\<in>set xs. is_valid_move g (fst q) (snd q) = Inr True
                 \<longrightarrow> (\<exists>w. move_score fuel g q = Some w \<and> number_less w (?val p))"
      using some(4) inc(2) is_valid_move_cells[OF wf] sc by (metis subsetD)
    have e: "\<forall>q\<in>set ys. is_valid_move g (fst q) (snd q) = Inr True
                 \<longrightarrow> (\<exists>w. move_score fuel g q = Some w \<and> \<not> number_less (?val p) w)"
      using some(5) inc(3) is_valid_move_cells[OF wf] sc by (metis subsetD)
    from some(1) a b c d e nf show ?thesis by blast
  qed
qed

theorem find_best_move_first_maximum_witness:
  "wf_grid tie_grid \<and> empties (board tie_grid) < 3 \<and> \<not> full (board tie_grid)
     \<and> returned (find_best_move 3 tie_grid) = Some (Some (2, 0))
     \<and> move_score 3 tie_grid (2, 0) = Some (IntVal 1)
     \<and> move_score 3 tie_grid (2, 2) = Some (IntVal 1)
     \<and> (\<exists>xs p ys v. cells = xs @ p # ys
           \<and> returned (find_best_move 3 tie_grid) = Some (Some p)
           \<and> is_valid_move tie_grid (fst p) (snd p) = Inr True
           \<and> move_score 3 tie_grid p = Some v
           \<and> (\<forall>q\<in>set xs. is_valid_move tie_grid (fst q) (snd q) = Inr True
                 \<longrightarrow> (\<exists>w. move_score 3 tie_grid q = Some w \<and> number_less w v))
           \<and> (\<forall>q\<in>set ys. is_valid_move tie_grid (fst q) (snd q) = Inr True
                 \<longrightarrow> (\<exists>w. move_score 3 tie_grid q = Some w \<and> \<not> number_less v w)))"
proof -
  have wf: "wf_grid tie_grid" by (simp add: wf_grid_def tie_grid_def)
  have e: "empties (board tie_grid) < 3"
    by (simp add: empties_def cells_eq at_def tie_grid_def)
  have nf: "\<not> full (board tie_grid)"
    by (simp add: full_def cells_eq at_def tie_grid_def)
  have r: "returned (find_best_move 3 tie_grid) = Some (Some (2, 0))" by code_simp
  have s1: "move_score 3 tie_grid (2, 0) = Some (IntVal 1)" by code_simp
  have s2: "move_score 3 tie_grid (2, 2) = Some (IntVal 1)" by code_simp
  from find_best_move_first_maximum[OF wf e] nf wf e r s1 s2 show ?thesis by blast
qed

section \<open>Errors\<close>

text \<open>
  Claim C8. On every grid of three rows of three cells and every cell in range,
  \<^verbatim>\<open>make_move\<close> raises \<^verbatim>\<open>ValueError\<close> if and only if the cell is not empty, and then
  leaves the grid unchanged; on an empty cell it writes the mark and adds one to the
  counter of that mark only. No other operation raises: \<^verbatim>\<open>is_valid_move\<close>,
  \<^verbatim>\<open>undo_move\<close>, \<^verbatim>\<open>is_terminal_state\<close> and \<^verbatim>\<open>evaluate\<close> return values, and so do
  \<^verbatim>\<open>minimax\<close> and \<^verbatim>\<open>find_best_move\<close> with enough fuel.
\<close>

theorem make_move_only_error:
  assumes "wf_grid g" "row < 3" "col < 3"
  shows "(fst (make_move g row col mark) = Inl ValueError \<longleftrightarrow> board g ! row ! col \<noteq> '' '')
       \<and> (board g ! row ! col \<noteq> '' '' \<longrightarrow> make_move g row col mark = (Inl ValueError, g))
       \<and> (board g ! row ! col = '' '' \<longrightarrow>
            make_move g row col mark =
              (Inr (), g\<lparr>board := (board g)[row := (board g ! row)[col := mark_value mark]],
                         x_count := x_count g + (if mark = Mark_X then 1 else 0),
                         o_count := o_count g + (if mark = Mark_O then 1 else 0)\<rparr>))
       \<and> (\<exists>v. is_valid_move g row col = Inr v)
       \<and> (\<exists>g1. undo_move g row col = (Inr (), g1))
       \<and> (\<exists>v. is_terminal_state g = Inr v)
       \<and> (\<exists>v. evaluate g = Inr v)
       \<and> (empties (board g) < fuel \<longrightarrow>
            (\<exists>v trace. minimax fuel g depth is_max = Some (Inr v, g, trace))
          \<and> (\<exists>m trace. find_best_move fuel g = Some (Inr m, g, trace)))"
proof -
  note wf = assms(1) and range = assms(2,3)
  have occ: "make_move g row col mark = (Inl ValueError, g)" if "board g ! row ! col \<noteq> '' ''"
    using make_move_occupied[OF wf range, of mark] that by (simp add: at_def)
  have emp: "make_move g row col mark =
              (Inr (), g\<lparr>board := (board g)[row := (board g ! row)[col := mark_value mark]],
                         x_count := x_count g + (if mark = Mark_X then 1 else 0),
                         o_count := o_count g + (if mark = Mark_O then 1 else 0)\<rparr>)"
    if "board g ! row ! col = '' ''"
    using make_move_wf[OF wf range, of mark] that
    by (cases mark) (simp_all add: at_def placed_def put_def)
  have a: "fst (make_move g row col mark) = Inl ValueError \<longleftrightarrow> board g ! row ! col \<noteq> '' ''"
    using occ emp by (cases "board g ! row ! col = '' ''") simp_all
  have v: "\<exists>v. is_valid_move g row col = Inr v"
    by (simp add: is_valid_move_wf[OF wf range])
  have t: "\<exists>v. is_terminal_state g = Inr v" by (simp add: is_terminal_state_wf[OF wf])
  have ev: "\<exists>v. evaluate g = Inr v" by (simp add: evaluate_wf[OF wf])
  have s: "(\<exists>v trace. minimax fuel g depth is_max = Some (Inr v, g, trace))
         \<and> (\<exists>m trace. find_best_move fuel g = Some (Inr m, g, trace))"
    if "empties (board g) < fuel"
    using minimax_refines[OF wf that, of depth is_max] find_best_move_refines[OF wf that]
    by blast
  from a occ emp v undo_move_wf[OF wf range] t ev s show ?thesis by blast
qed

theorem make_move_only_error_witness:
  "wf_grid diagonal_grid \<and> (0::nat) < 3 \<and> (1::nat) < 3
     \<and> make_move diagonal_grid 0 1 Mark_X = (Inl ValueError, diagonal_grid)
     \<and> make_move diagonal_grid 1 2 Mark_X =
         (Inr (), \<lparr>board = [[''X'', ''O'', '' ''], [''O'', ''X'', ''X''], ['' '', '' '', ''X'']],
                  x_count = 4, o_count = 2\<rparr>)"
proof -
  have wf: "wf_grid diagonal_grid" by (simp add: wf_grid_def diagonal_grid_def)
  have occupied: "board diagonal_grid ! 0 ! 1 \<noteq> '' ''" by (simp add: diagonal_grid_def)
  have empty: "board diagonal_grid ! 1 ! 2 = '' ''" by (simp add: diagonal_grid_def)
  have "make_move diagonal_grid 0 1 Mark_X = (Inl ValueError, diagonal_grid)"
    using make_move_only_error[OF wf, of 0 1 Mark_X] occupied by simp
  moreover have "make_move diagonal_grid 1 2 Mark_X =
         (Inr (), \<lparr>board = [[''X'', ''O'', '' ''], [''O'', ''X'', ''X''], ['' '', '' '', ''X'']],
                  x_count = 4, o_count = 2\<rparr>)"
    using make_move_only_error[OF wf, of 1 2 Mark_X] empty by (simp add: diagonal_grid_def)
  ultimately show ?thesis using wf by simp
qed

section \<open>The move chosen on a given grid\<close>

lemma find_best_move_first:
  assumes wf: "wf_grid g" and fuel: "empties (board g) < fuel"
    and split: "cells = xs @ p # ys"
    and before: "\<And>q. q \<in> set xs \<Longrightarrow> at (board g) q \<noteq> '' ''"
    and empty: "at (board g) p = '' ''"
    and after: "\<And>q. q \<in> set ys \<Longrightarrow> at (board g) q = '' '' \<Longrightarrow>
                  \<not> number_less (position_value fuel (put (board g) p ''X'') False)
                                 (position_value fuel (put (board g) q ''X'') False)"
  shows "\<exists>trace. find_best_move fuel g = Some (Inr (Some p), g, trace)"
proof -
  have "set cells = set xs \<union> {p} \<union> set ys"
    using arg_cong[OF split, of set] by simp
  then have p: "p \<in> set cells" by simp
  have "empties (board (placed g p Mark_X)) < fuel"
    using empties_placed[OF wf p empty, of Mark_X] fuel by simp
  from position_value_is_score[OF wf_grid_placed[OF wf, of p Mark_X] this, of False]
  have "number_less MinusInf (position_value fuel (put (board g) p ''X'') False)"
    by (simp add: board_placed is_score_above_MinusInf)
  note fin = this
  let ?f = "\<lambda>b1. position_value fuel b1 False"
  have r: "scan_value ?f ''X'' better (xs @ p # ys) (None, MinusInf) (board g)
             = (Some p, ?f (put (board g) p ''X''))"
  proof (rule scan_better_first)
    fix q assume "q \<in> set xs"
    then show "at (board g) q \<noteq> '' ''" by (rule before)
  next
    show "at (board g) p = '' ''" by (rule empty)
  next
    show "number_less MinusInf (?f (put (board g) p ''X''))" by (rule fin)
  next
    fix q assume "q \<in> set ys" "at (board g) q = '' ''"
    then show "\<not> number_less (?f (put (board g) p ''X'')) (?f (put (board g) q ''X''))"
      by (rule after)
  qed
  obtain trace where t: "find_best_move fuel g
      = Some (Inr (fst (scan_value ?f ''X'' better cells (None, MinusInf) (board g))), g, trace)"
    using find_best_move_refines[OF wf fuel] by blast
  have "fst (scan_value ?f ''X'' better cells (None, MinusInf) (board g)) = Some p"
    unfolding split r by simp
  with t have "find_best_move fuel g = Some (Inr (Some p), g, trace)" by simp
  then show ?thesis by blast
qed

lemma move_value_le_1:
  assumes wf: "wf_grid g" and fuel: "empties (board g) < fuel"
    and q: "q \<in> set cells" "at (board g) q = '' ''"
  shows "\<not> number_less (IntVal 1) (position_value fuel (put (board g) q ''X'') False)"
proof -
  have "empties (board (placed g q Mark_X)) < fuel"
    using empties_placed[OF wf q, of Mark_X] fuel by simp
  from position_value_is_score[OF wf_grid_placed[OF wf, of q Mark_X] this, of False]
  show ?thesis by (simp add: board_placed is_score_le_1)
qed

text \<open>
  Claim C7. On the grid with \<open>X\<close> at (0,0) and (0,1), \<open>O\<close> at (1,0) and (1,1) and every
  other cell empty, \<^verbatim>\<open>find_best_move\<close> returns the move (0, 2), which completes the top
  row of \<open>X\<close>.
\<close>

theorem find_best_move_completes_row:
  assumes "empties (board win_grid) < fuel"
  shows "\<exists>trace. find_best_move fuel win_grid = Some (Inr (Some (0, 2)), win_grid, trace)"
proof -
  have wf: "wf_grid win_grid" by (simp add: wf_grid_def win_grid_def)
  obtain n where n: "fuel = Suc n" using assms by (cases fuel) auto
  have "line_of (put (board win_grid) (0, 2) ''X'') ''X'' ((0, 0), (0, 1), (0, 2))"
    by (simp add: line_of_def at_def put_def win_grid_def)
  then have x: "has_line_of (put (board win_grid) (0, 2) ''X'') ''X''"
    by (auto simp: has_line_of_iff lines_eq)
  then have "terminal (put (board win_grid) (0, 2) ''X'')"
    using has_line_of_complete[of "''X''"] by (simp add: terminal_def)
  with x have v: "position_value fuel (put (board win_grid) (0, 2) ''X'') False = IntVal 1"
    by (simp add: n score_def)
  have split: "cells = [(0, 0), (0, 1)] @ (0, 2) # [(1, 0), (1, 1), (1, 2), (2, 0), (2, 1), (2, 2)]"
    by (simp add: cells_eq)
  show ?thesis
  proof (rule find_best_move_first[OF wf assms split])
    fix q :: "nat \<times> nat" assume "q \<in> set [(0, 0), (0, 1)]"
    then show "at (board win_grid) q \<noteq> '' ''" by (auto simp: at_def win_grid_def)
  next
    show "at (board win_grid) (0, 2) = '' ''" by (simp add: at_def win_grid_def)
  next
    fix q :: "nat \<times> nat"
    assume "q \<in> set [(1, 0), (1, 1), (1, 2), (2, 0), (2, 1), (2, 2)]"
      and e: "at (board win_grid) q = '' ''"
    then have "q \<in> set cells" by (auto simp: cells_eq)
    from move_value_le_1[OF wf assms this e]
    show "\<not> number_less (position_value fuel (put (board win_grid) (0, 2) ''X'') False)
                        (position_value fuel (put (board win_grid) q ''X'') False)"
      by (simp add: v)
  qed
qed

theorem find_best_move_completes_row_witness:
  "empties (board win_grid) < 6
     \<and> (\<exists>trace. find_best_move 6 win_grid = Some (Inr (Some (0, 2)), win_grid, trace))"
proof -
  have e: "empties (board win_grid) < 6"
    by (simp add: empties_def cells_eq at_def win_grid_def)
  from find_best_move_completes_row[OF e] e show ?thesis by simp
qed

section \<open>Bounds checked on the board of nine squares\<close>

lemma some_of_iff: "some_of P xs \<longleftrightarrow> (\<exists>x\<in>set xs. P x)"
  by (induction xs) auto

lemma each_of_iff: "each_of P xs \<longleftrightarrow> (\<forall>x\<in>set xs. P x)"
  by (induction xs) auto

lemma length9:
  assumes "length b = 9"
  shows "\<exists>a0 a1 a2 a3 a4 a5 a6 a7 a8. b = [a0, a1, a2, a3, a4, a5, a6, a7, a8]"
proof -
  from assms obtain a0 t0 where "b = a0 # t0" "length t0 = 8" by (cases b) auto
  moreover then obtain a1 t1 where "t0 = a1 # t1" "length t1 = 7" by (cases t0) auto
  moreover then obtain a2 t2 where "t1 = a2 # t2" "length t2 = 6" by (cases t1) auto
  moreover then obtain a3 t3 where "t2 = a3 # t3" "length t3 = 5" by (cases t2) auto
  moreover then obtain a4 t4 where "t3 = a4 # t4" "length t4 = 4" by (cases t3) auto
  moreover then obtain a5 t5 where "t4 = a5 # t5" "length t5 = 3" by (cases t4) auto
  moreover then obtain a6 t6 where "t5 = a6 # t6" "length t6 = 2" by (cases t5) auto
  moreover then obtain a7 t7 where "t6 = a7 # t7" "length t7 = 1" by (cases t6) auto
  moreover then obtain a8 where "t7 = [a8]" by (cases t7) auto
  ultimately show ?thesis by blast
qed

lemma render_empty: "render x = '' '' \<longleftrightarrow> x = Blank"
  by (cases x) simp_all

lemma render_X: "render x = ''X'' \<longleftrightarrow> x = Cross"
  by (cases x) simp_all

lemma render_O: "render x = ''O'' \<longleftrightarrow> x = Nought"
  by (cases x) simp_all

lemma render_complete:
  "render x \<noteq> '' '' \<and> render x = render y \<and> render y = render z
     \<longleftrightarrow> (x = Cross \<and> y = Cross \<and> z = Cross) \<or> (x = Nought \<and> y = Nought \<and> z = Nought)"
  by (cases x; cases y; cases z) simp_all

lemma has_line_of_to_board:
  assumes "length b = 9"
  shows "has_line_of (to_board b) ''X'' = won Cross b"
    and "has_line_of (to_board b) ''O'' = won Nought b"
proof -
  from length9[OF assms] obtain a0 a1 a2 a3 a4 a5 a6 a7 a8
    where b: "b = [a0, a1, a2, a3, a4, a5, a6, a7, a8]" by blast
  show "has_line_of (to_board b) ''X'' = won Cross b"
    unfolding b by (simp add: has_line_of_def lines_eq line_of_def at_def render_X)
  show "has_line_of (to_board b) ''O'' = won Nought b"
    unfolding b by (simp add: has_line_of_def lines_eq line_of_def at_def render_O)
qed

lemma score_to_board: "length b = 9 \<Longrightarrow> score (to_board b) = square_score b"
  by (simp add: score_def square_score_def has_line_of_to_board)

lemma at_to_board:
  assumes "length b = 9" "p \<in> set cells"
  shows "at (to_board b) p = render (b ! (3 * fst p + snd p))"
proof -
  from length9[OF assms(1)] obtain a0 a1 a2 a3 a4 a5 a6 a7 a8
    where b: "b = [a0, a1, a2, a3, a4, a5, a6, a7, a8]" by blast
  from assms(2) consider "p = (0, 0)" | "p = (0, 1)" | "p = (0, 2)" | "p = (1, 0)" | "p = (1, 1)"
    | "p = (1, 2)" | "p = (2, 0)" | "p = (2, 1)" | "p = (2, 2)"
    by (auto simp: cells_eq)
  then show ?thesis
    unfolding b by cases (simp_all add: at_def eval_nat_numeral)
qed

lemma complete_line_render:
  assumes "at b p = render x"
  shows "complete_line b (p, q, r) \<longleftrightarrow> line_of b ''X'' (p, q, r) \<or> line_of b ''O'' (p, q, r)"
  using assms by (cases x) (auto simp: complete_line_def line_of_def)

lemma lines_in_cells: "(p, q, r) \<in> set lines \<Longrightarrow> p \<in> set cells"
  by (auto simp: lines_eq cells_eq)

lemma has_complete_line_to_board:
  assumes "length b = 9"
  shows "has_complete_line (to_board b) \<longleftrightarrow> won Cross b \<or> won Nought b"
proof -
  have "complete_line (to_board b) l
          \<longleftrightarrow> line_of (to_board b) ''X'' l \<or> line_of (to_board b) ''O'' l"
    if "l \<in> set lines" for l
  proof -
    obtain p q r where l: "l = (p, q, r)" by (cases l)
    from that have "p \<in> set cells" unfolding l by (rule lines_in_cells)
    from at_to_board[OF assms this] show ?thesis
      unfolding l by (rule complete_line_render)
  qed
  then have "has_complete_line (to_board b)
          \<longleftrightarrow> has_line_of (to_board b) ''X'' \<or> has_line_of (to_board b) ''O''"
    unfolding has_complete_line_iff has_line_of_iff by blast
  then show ?thesis by (simp add: has_line_of_to_board[OF assms])
qed

lemma full_to_board:
  assumes "length b = 9"
  shows "full (to_board b) \<longleftrightarrow> Blank \<notin> set b"
proof -
  from length9[OF assms] obtain a0 a1 a2 a3 a4 a5 a6 a7 a8
    where b: "b = [a0, a1, a2, a3, a4, a5, a6, a7, a8]" by blast
  have "full (to_board b) \<longleftrightarrow> a0 \<noteq> Blank \<and> a1 \<noteq> Blank \<and> a2 \<noteq> Blank \<and> a3 \<noteq> Blank
      \<and> a4 \<noteq> Blank \<and> a5 \<noteq> Blank \<and> a6 \<noteq> Blank \<and> a7 \<noteq> Blank \<and> a8 \<noteq> Blank"
    unfolding b by (simp add: full_def cells_eq at_def render_empty)
  also have "\<dots> \<longleftrightarrow> Blank \<notin> set b"
    unfolding b by (simp add: eq_commute[of Blank])
  finally show ?thesis .
qed

lemma terminal_to_board: "length b = 9 \<Longrightarrow> terminal (to_board b) = square_terminal b"
  unfolding terminal_def square_terminal_def
  by (simp add: has_complete_line_to_board full_to_board)

lemma in_single_if: "y \<in> set (if c then [x] else []) \<longleftrightarrow> c \<and> y = x"
  by (cases c) simp_all

lemma in_nexts:
  "b1 \<in> set (nexts m [a0, a1, a2, a3, a4, a5, a6, a7, a8]) \<longleftrightarrow>
     (a4 = Blank \<and> b1 = [a0, a1, a2, a3, m, a5, a6, a7, a8]) \<or>
     (a0 = Blank \<and> b1 = [m, a1, a2, a3, a4, a5, a6, a7, a8]) \<or>
     (a2 = Blank \<and> b1 = [a0, a1, m, a3, a4, a5, a6, a7, a8]) \<or>
     (a6 = Blank \<and> b1 = [a0, a1, a2, a3, a4, a5, m, a7, a8]) \<or>
     (a8 = Blank \<and> b1 = [a0, a1, a2, a3, a4, a5, a6, a7, m]) \<or>
     (a1 = Blank \<and> b1 = [a0, m, a2, a3, a4, a5, a6, a7, a8]) \<or>
     (a3 = Blank \<and> b1 = [a0, a1, a2, m, a4, a5, a6, a7, a8]) \<or>
     (a5 = Blank \<and> b1 = [a0, a1, a2, a3, a4, m, a6, a7, a8]) \<or>
     (a7 = Blank \<and> b1 = [a0, a1, a2, a3, a4, a5, a6, m, a8])"
  by (simp only: nexts.simps set_append Un_iff in_single_if disj_assoc)

lemma length_nexts: "length b = 9 \<Longrightarrow> b1 \<in> set (nexts m b) \<Longrightarrow> length b1 = 9"
proof -
  assume len: "length b = 9" and b1: "b1 \<in> set (nexts m b)"
  from length9[OF len] obtain a0 a1 a2 a3 a4 a5 a6 a7 a8
    where b: "b = [a0, a1, a2, a3, a4, a5, a6, a7, a8]" by blast
  from b1[unfolded b in_nexts] show ?thesis by (elim disjE conjE) simp_all
qed

lemma nexts_complete:
  assumes "length b = 9" "p \<in> set cells" "at (to_board b) p = '' ''"
  shows "b[3 * fst p + snd p := m] \<in> set (nexts m b)
       \<and> to_board (b[3 * fst p + snd p := m]) = put (to_board b) p (render m)"
proof -
  from length9[OF assms(1)] obtain a0 a1 a2 a3 a4 a5 a6 a7 a8
    where b: "b = [a0, a1, a2, a3, a4, a5, a6, a7, a8]" by blast
  from assms(2) consider "p = (0, 0)" | "p = (0, 1)" | "p = (0, 2)" | "p = (1, 0)" | "p = (1, 1)"
    | "p = (1, 2)" | "p = (2, 0)" | "p = (2, 1)" | "p = (2, 2)"
    by (auto simp: cells_eq)
  then show ?thesis
    using assms(3) unfolding b in_nexts
    by cases (simp_all add: at_def put_def render_empty eval_nat_numeral del: nexts.simps)
qed

lemma nexts_sound:
  assumes "length b = 9" "b1 \<in> set (nexts m b)"
  shows "\<exists>p\<in>set cells. at (to_board b) p = '' '' \<and> to_board b1 = put (to_board b) p (render m)"
proof -
  from length9[OF assms(1)] obtain a0 a1 a2 a3 a4 a5 a6 a7 a8
    where b: "b = [a0, a1, a2, a3, a4, a5, a6, a7, a8]" by blast
  from assms(2)[unfolded b in_nexts] show ?thesis
    unfolding b by (elim disjE conjE) (simp_all add: cells_eq at_def put_def)
qed

lemma at_least_sound:
  "at_least n k b is_max \<Longrightarrow> length b = 9
     \<Longrightarrow> \<not> number_less (position_value n (to_board b) is_max) (IntVal k)"
proof (induction n arbitrary: b is_max)
  case 0
  then show ?case by simp
next
  case (Suc n)
  note len = Suc.prems(2)
  show ?case
  proof (cases "square_terminal b")
    case True
    with Suc.prems(1) show ?thesis
      by (simp add: terminal_to_board[OF len] score_to_board[OF len])
  next
    case False
    show ?thesis
    proof (cases is_max)
      case True
      with False Suc.prems(1) obtain b1
        where b1: "b1 \<in> set (nexts Cross b)" "at_least n k b1 False"
        by (auto simp: some_of_iff)
      from nexts_sound[OF len b1(1)] obtain p
        where p: "p \<in> set cells" "at (to_board b) p = '' ''"
          "to_board b1 = put (to_board b) p ''X''"
        by auto
      from Suc.IH[OF b1(2) length_nexts[OF len b1(1)]]
      have "\<not> number_less (position_value n (put (to_board b) p ''X'') False) (IntVal k)"
        by (simp add: p(3))
      from scan_max_ge_child[of p cells "to_board b" "\<lambda>b1. position_value n b1 False" "''X''",
          OF p(1,2) this]
      show ?thesis using True False by (simp add: terminal_to_board[OF len])
    next
      case is_min: False
      have "\<not> number_less (position_value n (put (to_board b) p ''O'') True) (IntVal k)"
        if p: "p \<in> set cells" "at (to_board b) p = '' ''" for p
      proof -
        from nexts_complete[OF len p, of Nought]
        have m: "b[3 * fst p + snd p := Nought] \<in> set (nexts Nought b)"
          and t: "to_board (b[3 * fst p + snd p := Nought]) = put (to_board b) p ''O''"
          by simp_all
        from Suc.prems(1) is_min False m
        have "at_least n k (b[3 * fst p + snd p := Nought]) True"
          by (simp add: each_of_iff)
        from Suc.IH[OF this] len show ?thesis by (simp add: t)
      qed
      then have "\<not> number_less
          (scan_value (\<lambda>b1. position_value n b1 True) ''O''
             (\<lambda>best_val rc val. py_min best_val val) cells PlusInf (to_board b)) (IntVal k)"
        by (intro scan_min_ge) simp_all
      then show ?thesis using is_min False by (simp add: terminal_to_board[OF len])
    qed
  qed
qed

lemma at_most_sound:
  "at_most n k b is_max \<Longrightarrow> length b = 9
     \<Longrightarrow> \<not> number_less (IntVal k) (position_value n (to_board b) is_max)"
proof (induction n arbitrary: b is_max)
  case 0
  then show ?case by simp
next
  case (Suc n)
  note len = Suc.prems(2)
  show ?case
  proof (cases "square_terminal b")
    case True
    with Suc.prems(1) show ?thesis
      by (simp add: terminal_to_board[OF len] score_to_board[OF len])
  next
    case False
    show ?thesis
    proof (cases is_max)
      case is_min: False
      with False Suc.prems(1) obtain b1
        where b1: "b1 \<in> set (nexts Nought b)" "at_most n k b1 True"
        by (auto simp: some_of_iff)
      from nexts_sound[OF len b1(1)] obtain p
        where p: "p \<in> set cells" "at (to_board b) p = '' ''"
          "to_board b1 = put (to_board b) p ''O''"
        by auto
      from Suc.IH[OF b1(2) length_nexts[OF len b1(1)]]
      have "\<not> number_less (IntVal k) (position_value n (put (to_board b) p ''O'') True)"
        by (simp add: p(3))
      from scan_min_le_child[of p cells "to_board b" "IntVal k"
          "\<lambda>b1. position_value n b1 True" "''O''", OF p(1,2) this]
      show ?thesis using is_min False by (simp add: terminal_to_board[OF len])
    next
      case True
      have "\<not> number_less (IntVal k) (position_value n (put (to_board b) p ''X'') False)"
        if p: "p \<in> set cells" "at (to_board b) p = '' ''" for p
      proof -
        from nexts_complete[OF len p, of Cross]
        have m: "b[3 * fst p + snd p := Cross] \<in> set (nexts Cross b)"
          and t: "to_board (b[3 * fst p + snd p := Cross]) = put (to_board b) p ''X''"
          by simp_all
        from Suc.prems(1) True False m
        have "at_most n k (b[3 * fst p + snd p := Cross]) False"
          by (simp add: each_of_iff)
        from Suc.IH[OF this] len show ?thesis by (simp add: t)
      qed
      then have "\<not> number_less (IntVal k)
          (scan_value (\<lambda>b1. position_value n b1 False) ''X''
             (\<lambda>best_val rc val. py_max best_val val) cells MinusInf (to_board b))"
        by (intro scan_max_le) simp_all
      then show ?thesis using True False by (simp add: terminal_to_board[OF len])
    qed
  qed
qed

section \<open>The empty board\<close>

lemma at_most_children:
  "at_most (Suc n) k b True \<Longrightarrow> \<not> square_terminal b \<Longrightarrow> b1 \<in> set (nexts Cross b)
     \<Longrightarrow> at_most n k b1 False"
  by (simp add: each_of_iff)

lemma board_Grid_init:
  "board Grid_init = to_board [Blank, Blank, Blank, Blank, Blank, Blank, Blank, Blank, Blank]"
  by (simp add: Grid_init_def eval_nat_numeral)

lemma wf_grid_Grid_init: "wf_grid Grid_init"
  by (simp add: wf_grid_def Grid_init_def eval_nat_numeral)

lemma empties_Grid_init: "empties (board Grid_init) = 9"
  by (simp add: board_Grid_init empties_def cells_eq at_def)

lemma empty_board_at_least:
  "at_least 10 0 [Blank, Blank, Blank, Blank, Blank, Blank, Blank, Blank, Blank] True"
  by code_simp

lemma empty_board_at_most:
  "at_most 10 0 [Blank, Blank, Blank, Blank, Blank, Blank, Blank, Blank, Blank] True"
  by code_simp

lemma corner_at_least:
  "at_least 9 0 [Cross, Blank, Blank, Blank, Blank, Blank, Blank, Blank, Blank] False"
  by code_simp

lemma empty_board_value: "position_value 10 (board Grid_init) True = IntVal 0"
proof -
  have "\<not> number_less (position_value 10 (board Grid_init) True) (IntVal 0)"
    unfolding board_Grid_init by (rule at_least_sound[OF empty_board_at_least]) simp
  moreover have "\<not> number_less (IntVal 0) (position_value 10 (board Grid_init) True)"
    unfolding board_Grid_init by (rule at_most_sound[OF empty_board_at_most]) simp
  ultimately show ?thesis by (rule number_less_antisym)
qed

lemma first_move_at_most:
  assumes "p \<in> set cells"
  shows "\<not> number_less (IntVal 0) (position_value 9 (put (board Grid_init) p ''X'') False)"
proof -
  let ?e = "[Blank, Blank, Blank, Blank, Blank, Blank, Blank, Blank, Blank]"
  have len: "length ?e = 9" by simp
  have empty: "at (to_board ?e) p = '' ''"
    using assms by (auto simp: cells_eq at_def)
  from nexts_complete[OF len assms empty, of Cross]
  have m: "?e[3 * fst p + snd p := Cross] \<in> set (nexts Cross ?e)"
    and t: "to_board (?e[3 * fst p + snd p := Cross]) = put (to_board ?e) p ''X''"
    by simp_all
  have open_board: "\<not> square_terminal ?e" by (simp add: square_terminal_def)
  have "(10::nat) = Suc 9" by simp
  from empty_board_at_most[unfolded this]
  have "at_most 9 0 (?e[3 * fst p + snd p := Cross]) False"
    by (rule at_most_children[OF _ open_board m])
  moreover have "length (?e[3 * fst p + snd p := Cross]) = 9"
    by (subst length_list_update) (rule len)
  ultimately
  have "\<not> number_less (IntVal 0)
          (position_value 9 (to_board (?e[3 * fst p + snd p := Cross])) False)"
    by (rule at_most_sound)
  then show ?thesis unfolding t board_Grid_init .
qed

lemma corner_value: "position_value 9 (put (board Grid_init) (0, 0) ''X'') False = IntVal 0"
proof -
  have "put (board Grid_init) (0, 0) ''X''
          = to_board [Cross, Blank, Blank, Blank, Blank, Blank, Blank, Blank, Blank]"
    by (simp add: board_Grid_init put_def)
  then have "\<not> number_less (position_value 9 (put (board Grid_init) (0, 0) ''X'') False) (IntVal 0)"
    using at_least_sound[OF corner_at_least] by simp
  moreover have "\<not> number_less (IntVal 0) (position_value 9 (put (board Grid_init) (0, 0) ''X'') False)"
    by (rule first_move_at_most) (simp add: cells_eq)
  ultimately show ?thesis by (rule number_less_antisym)
qed

lemma first_move_fuel:
  assumes "9 < fuel" "p \<in> set cells"
  shows "position_value fuel (put (board Grid_init) p ''X'') False
           = position_value 9 (put (board Grid_init) p ''X'') False"
proof -
  have empty: "at (board Grid_init) p = '' ''"
    using assms(2) by (auto simp: board_Grid_init cells_eq at_def)
  have less: "empties (board (placed Grid_init p Mark_X)) < 9"
    using empties_placed[OF wf_grid_Grid_init assms(2) empty, of Mark_X]
    by (simp add: empties_Grid_init)
  then have "empties (board (placed Grid_init p Mark_X)) < fuel" using assms(1) by simp
  from position_value_fuel[OF wf_grid_placed[OF wf_grid_Grid_init, of p Mark_X] this less, of False]
  show ?thesis by (simp add: board_placed)
qed

text \<open>
  Claim C1. On the empty board the value \<^verbatim>\<open>minimax\<close> returns with \<open>X\<close> to move is exactly
  \<open>0\<close>, and \<^verbatim>\<open>find_best_move\<close> returns a move, the corner (0, 0), whose score (the value
  of \<^verbatim>\<open>minimax\<close> in minimizing mode after \<open>X\<close> has been put there) is \<open>0\<close>.
\<close>

theorem empty_board_is_a_draw:
  assumes "empties (board Grid_init) < fuel"
  shows "(\<exists>trace. minimax fuel Grid_init depth True = Some (Inr (IntVal 0), Grid_init, trace))
       \<and> (\<exists>trace. find_best_move fuel Grid_init = Some (Inr (Some (0, 0)), Grid_init, trace))
       \<and> move_score fuel Grid_init (0, 0) = Some (IntVal 0)"
proof -
  note wf = wf_grid_Grid_init
  from assms have fuel: "9 < fuel" by (simp add: empties_Grid_init)
  have empty: "at (board Grid_init) p = '' ''" if "p \<in> set cells" for p
    using that by (auto simp: board_Grid_init cells_eq at_def)
  have "position_value fuel (board Grid_init) True = position_value 10 (board Grid_init) True"
    by (rule position_value_fuel[OF wf assms]) (simp add: empties_Grid_init)
  then have "position_value fuel (board Grid_init) True = IntVal 0"
    by (simp add: empty_board_value)
  with minimax_refines[OF wf assms, of depth True]
  have a: "\<exists>trace. minimax fuel Grid_init depth True = Some (Inr (IntVal 0), Grid_init, trace)"
    by auto
  have c00: "(0, 0) \<in> set cells" by (simp add: cells_eq)
  have v00: "position_value fuel (put (board Grid_init) (0, 0) ''X'') False = IntVal 0"
    using first_move_fuel[OF fuel c00] corner_value by simp
  have split: "cells = [] @ (0, 0) # [(0, 1), (0, 2), (1, 0), (1, 1), (1, 2), (2, 0), (2, 1), (2, 2)]"
    by (simp add: cells_eq)
  have b: "\<exists>trace. find_best_move fuel Grid_init = Some (Inr (Some (0, 0)), Grid_init, trace)"
  proof (rule find_best_move_first[OF wf assms split])
    fix q :: "nat \<times> nat" assume "q \<in> set []"
    then show "at (board Grid_init) q \<noteq> '' ''" by simp
  next
    show "at (board Grid_init) (0, 0) = '' ''" by (rule empty[OF c00])
  next
    fix q :: "nat \<times> nat"
    assume "q \<in> set [(0, 1), (0, 2), (1, 0), (1, 1), (1, 2), (2, 0), (2, 1), (2, 2)]"
    then have q: "q \<in> set cells" by (auto simp: cells_eq)
    show "\<not> number_less (position_value fuel (put (board Grid_init) (0, 0) ''X'') False)
                        (position_value fuel (put (board Grid_init) q ''X'') False)"
      using first_move_at_most[OF q] first_move_fuel[OF fuel q] by (simp add: v00)
  qed
  have c: "move_score fuel Grid_init (0, 0) = Some (IntVal 0)"
    using move_score_wf[OF wf assms c00 empty[OF c00]] v00 by simp
  from a b c show ?thesis by blast
qed

theorem empty_board_is_a_draw_witness:
  "empties (board Grid_init) < 10
     \<and> (\<exists>trace. minimax 10 Grid_init 0 True = Some (Inr (IntVal 0), Grid_init, trace))
     \<and> (\<exists>trace. find_best_move 10 Grid_init = Some (Inr (Some (0, 0)), Grid_init, trace))
     \<and> move_score 10 Grid_init (0, 0) = Some (IntVal 0)"
proof -
  have e: "empties (board Grid_init) < 10" by (simp add: empties_Grid_init)
  from empty_board_is_a_draw[OF e, of 0] e show ?thesis by blast
qed

section \<open>The balance of the counters during a game\<close>

lemma find_best_move_some:
  assumes wf: "wf_grid g" and fuel: "empties (board g) < fuel" and open_board: "\<not> full (board g)"
  shows "\<exists>p trace. find_best_move fuel g = Some (Inr (Some p), g, trace)
           \<and> p \<in> set cells \<and> at (board g) p = '' ''
           \<and> (\<forall>s\<in>set trace. in_window g True s)"
proof -
  let ?f = "\<lambda>b1. position_value fuel b1 False"
  let ?r = "scan_value ?f ''X'' better cells (None, MinusInf) (board g)"
  have fin: "number_less MinusInf (?f (put (board g) q ''X''))"
    if "q \<in> set cells" "at (board g) q = '' ''" for q
  proof -
    have "empties (board (placed g q Mark_X)) < fuel"
      using empties_placed[OF wf that, of Mark_X] fuel by simp
    from position_value_is_score[OF wf_grid_placed[OF wf, of q Mark_X] this, of False]
    show ?thesis by (simp add: board_placed is_score_above_MinusInf)
  qed
  from scan_better_char[of cells "board g" ?f "''X''", OF fin] open_board
  obtain xs p ys where s: "cells = xs @ p # ys" "at (board g) p = '' ''" "fst ?r = Some p"
    by (auto simp: full_iff)
  have "set cells = set xs \<union> {p} \<union> set ys"
    using arg_cong[OF s(1), of set] by simp
  then have p: "p \<in> set cells" by simp
  from find_best_move_refines[OF wf fuel] obtain trace
    where "find_best_move fuel g = Some (Inr (fst ?r), g, trace)"
      "\<forall>s\<in>set trace. in_window g True s"
    by blast
  with s(2,3) p show ?thesis by auto
qed

lemma empties_le_9: "empties b \<le> 9"
proof -
  have "empties b \<le> length cells" unfolding empties_def by (rule length_filter_le)
  then show ?thesis by (simp add: cells_eq)
qed

lemma in_window_balance:
  "in_window g True s \<Longrightarrow> balance g = - 1 \<Longrightarrow> balance s = - 1 \<or> balance s = 0"
  by (auto simp: in_window_def)

lemma after_ai_move_wf:
  assumes "wf_grid g"
  shows "\<exists>res. after_ai_move g trace = Some (Inr res, g, trace)
            \<and> (res = None \<longleftrightarrow> \<not> terminal (board g))"
  by (cases "terminal (board g)")
     (simp_all add: after_ai_move_def is_terminal_state_wf[OF assms] evaluate_wf[OF assms])

lemma on_click_balance:
  assumes wf: "wf_grid g" and bal: "balance g = 0" and fuel: "8 < fuel"
    and window: "fst mouse < 300" "snd mouse < 300"
  shows "\<exists>res g1 trace. on_click fuel g mouse = Some (Inr res, g1, trace)
           \<and> wf_grid g1
           \<and> (\<forall>s\<in>set trace. balance s = - 1 \<or> balance s = 0)
           \<and> (res = None \<longrightarrow> balance g1 = 0)"
proof -
  let ?col = "fst mouse div 100" and ?row = "snd mouse div 100"
  let ?p = "(?row, ?col)"
  from window have range: "?row < 3" "?col < 3" by simp_all
  then have p: "?p \<in> set cells" by (simp add: in_cells)
  note valid = is_valid_move_wf[OF wf range]
  show ?thesis
  proof (cases "at (board g) ?p = '' ''")
    case False
    with valid wf bal show ?thesis by (simp add: on_click_def Let_def)
  next
    case True
    let ?g1 = "placed g ?p Mark_O"
    have mk: "make_move g ?row ?col Mark_O = (Inr (), ?g1)"
      by (rule make_move_wf[OF wf range True])
    have wf1: "wf_grid ?g1" by (rule wf_grid_placed[OF wf])
    have bal1: "balance ?g1 = - 1" by (simp add: balance_placed bal)
    note term1 = is_terminal_state_wf[OF wf1]
    show ?thesis
    proof (cases "terminal (board ?g1)")
      case ended: True
      have "on_click fuel g mouse = Some (Inr (Some ''Human wins!''), ?g1, [?g1])"
        using valid True mk term1 ended by (simp add: on_click_def Let_def)
      with wf1 bal1 show ?thesis by simp
    next
      case open_game: False
      then have nf: "\<not> full (board ?g1)" by (simp add: terminal_def)
      have "empties (board ?g1) < empties (board g)"
        by (rule empties_placed[OF wf p True])
      with empties_le_9[of "board g"] fuel have f1: "empties (board ?g1) < fuel" by simp
      from find_best_move_some[OF wf1 f1 nf] obtain q trace2
        where fb: "find_best_move fuel ?g1 = Some (Inr (Some q), ?g1, trace2)"
          and q: "q \<in> set cells" "at (board ?g1) q = '' ''"
          and tr2: "\<forall>s\<in>set trace2. in_window ?g1 True s"
        by blast
      obtain r c where rc: "q = (r, c)" by (cases q)
      with q(1) have qrange: "r < 3" "c < 3" by (simp_all add: in_cells)
      let ?g3 = "placed ?g1 q Mark_X"
      have mk3: "make_move ?g1 r c Mark_X = (Inr (), ?g3)"
        unfolding rc by (rule make_move_wf[OF wf1 qrange q(2)[unfolded rc]])
      have wf3: "wf_grid ?g3" by (rule wf_grid_placed[OF wf1])
      have bal3: "balance ?g3 = 0" by (simp add: balance_placed bal)
      have ai: "ai_move ?g1 (Some q) = (Inr (), ?g3, [?g3])"
        using mk3 by (simp add: ai_move_def rc)
      from after_ai_move_wf[OF wf3, of "?g1 # trace2 @ [?g3]"] obtain res
        where after: "after_ai_move ?g3 (?g1 # trace2 @ [?g3])
                        = Some (Inr res, ?g3, ?g1 # trace2 @ [?g3])"
        by blast
      have "on_click fuel g mouse = Some (Inr res, ?g3, ?g1 # trace2 @ [?g3])"
        using valid True mk term1 open_game fb ai after by (simp add: on_click_def Let_def)
      moreover have "\<forall>s\<in>set (?g1 # trace2 @ [?g3]). balance s = - 1 \<or> balance s = 0"
        using bal1 bal3 tr2 in_window_balance[OF _ bal1] by auto
      ultimately show ?thesis using wf3 bal3 by blast
    qed
  qed
qed

lemma play_balance:
  assumes "8 < fuel"
  shows "wf_grid g \<Longrightarrow> balance g = 0
     \<Longrightarrow> (\<forall>mouse\<in>set clicks. fst mouse < 300 \<and> snd mouse < 300)
     \<Longrightarrow> \<exists>res g1 trace. play fuel clicks g = Some (Inr res, g1, trace)
           \<and> (\<forall>s\<in>set trace. balance s = - 1 \<or> balance s = 0)"
proof (induction clicks arbitrary: g)
  case Nil
  show ?case by simp
next
  case (Cons mouse rest)
  from Cons.prems(3) have window: "fst mouse < 300" "snd mouse < 300" by simp_all
  from on_click_balance[OF Cons.prems(1,2) assms window] obtain res g1 trace1
    where oc: "on_click fuel g mouse = Some (Inr res, g1, trace1)"
      and wf1: "wf_grid g1"
      and tr1: "\<forall>s\<in>set trace1. balance s = - 1 \<or> balance s = 0"
      and bal1: "res = None \<longrightarrow> balance g1 = 0"
    by blast
  show ?case
  proof (cases res)
    case (Some message)
    with oc tr1 show ?thesis by simp
  next
    case None
    with bal1 have "balance g1 = 0" by simp
    from Cons.IH[OF wf1 this] Cons.prems(3) obtain res2 g2 trace2
      where pl: "play fuel rest g1 = Some (Inr res2, g2, trace2)"
        and tr2: "\<forall>s\<in>set trace2. balance s = - 1 \<or> balance s = 0"
      by auto
    have "play fuel (mouse # rest) g = Some (Inr res2, g2, trace1 @ trace2)"
      using oc None pl by simp
    moreover have "\<forall>s\<in>set (trace1 @ trace2). balance s = - 1 \<or> balance s = 0"
      using tr1 tr2 by auto
    ultimately show ?thesis by blast
  qed
qed

lemma first_click_trace:
  "\<exists>res g1 trace. play 9 [(50, 50)] Grid_init
        = Some (Inr res, g1, placed Grid_init (0, 0) Mark_O # trace)"
proof -
  note wf = wf_grid_Grid_init
  let ?g1 = "placed Grid_init (0, 0) Mark_O"
  have empty: "at (board Grid_init) (0, 0) = '' ''"
    by (simp add: board_Grid_init at_def)
  have valid: "is_valid_move Grid_init 0 0 = Inr True"
    using is_valid_move_wf[OF wf, of 0 0] empty by simp
  have mk: "make_move Grid_init 0 0 Mark_O = (Inr (), ?g1)"
    using make_move_wf[OF wf _ _ empty, of Mark_O] by simp
  have wf1: "wf_grid ?g1" by (rule wf_grid_placed[OF wf])
  have b1: "board ?g1 = to_board [Nought, Blank, Blank, Blank, Blank, Blank, Blank, Blank, Blank]"
    by (simp add: board_placed board_Grid_init put_def)
  have "terminal (board ?g1)
          = square_terminal [Nought, Blank, Blank, Blank, Blank, Blank, Blank, Blank, Blank]"
    unfolding b1 by (rule terminal_to_board) simp
  moreover have "\<not> square_terminal [Nought, Blank, Blank, Blank, Blank, Blank, Blank, Blank, Blank]"
    by (simp add: square_terminal_def)
  ultimately have open_game: "\<not> terminal (board ?g1)" by simp
  then have nf: "\<not> full (board ?g1)" by (simp add: terminal_def)
  have "empties (board ?g1) < empties (board Grid_init)"
    by (rule empties_placed[OF wf _ empty]) (simp add: cells_eq)
  then have f1: "empties (board ?g1) < 9" by (simp add: empties_Grid_init)
  from find_best_move_some[OF wf1 f1 nf] obtain q trace2
    where fb: "find_best_move 9 ?g1 = Some (Inr (Some q), ?g1, trace2)"
      and q: "q \<in> set cells" "at (board ?g1) q = '' ''"
    by blast
  obtain r c where rc: "q = (r, c)" by (cases q)
  with q(1) have qrange: "r < 3" "c < 3" by (simp_all add: in_cells)
  let ?g3 = "placed ?g1 q Mark_X"
  have mk3: "make_move ?g1 r c Mark_X = (Inr (), ?g3)"
    unfolding rc by (rule make_move_wf[OF wf1 qrange q(2)[unfolded rc]])
  have ai: "ai_move ?g1 (Some q) = (Inr (), ?g3, [?g3])"
    using mk3 by (simp add: ai_move_def rc)
  from after_ai_move_wf[OF wf_grid_placed[OF wf1], of q Mark_X "?g1 # trace2 @ [?g3]"] obtain res
    where after: "after_ai_move ?g3 (?g1 # trace2 @ [?g3])
                    = Some (Inr res, ?g3, ?g1 # trace2 @ [?g3])"
    by blast
  have oc: "on_click 9 Grid_init (50, 50) = Some (Inr res, ?g3, ?g1 # trace2 @ [?g3])"
    using valid mk is_terminal_state_wf[OF wf1] open_game fb ai after
    by (simp add: on_click_def Let_def)
  show ?thesis
  proof (cases res)
    case None
    with oc show ?thesis by simp
  next
    case (Some message)
    with oc show ?thesis by simp
  qed
qed

text \<open>
  Claim C9, as amended. In a game played from the empty grid by clicks inside the window,
  with enough fuel for the search, every handler returns without raising, and
  \<open>x_count - o_count\<close> is \<open>-1\<close> or \<open>0\<close> in every state of the grid: at the start, after each
  move of the human (\<open>O\<close>, who moves first) and of the program (\<open>X\<close>), and after each
  \<^verbatim>\<open>make_move\<close> and \<^verbatim>\<open>undo_move\<close> of the search in between.
\<close>

theorem balance_during_play:
  assumes "8 < fuel" "\<forall>mouse\<in>set clicks. fst mouse < 300 \<and> snd mouse < 300"
  shows "\<exists>res g trace. play fuel clicks Grid_init = Some (Inr res, g, trace)
           \<and> (\<forall>s\<in>set (Grid_init # trace).
                 x_count s - o_count s = - 1 \<or> x_count s - o_count s = 0)"
proof -
  have "balance Grid_init = 0" by (simp add: balance_def Grid_init_def)
  from play_balance[OF assms(1) wf_grid_Grid_init this assms(2)] this
  show ?thesis by (auto simp: balance_def)
qed

theorem balance_during_play_witness:
  "(8::nat) < 9 \<and> fst (50::nat, 50::nat) < 300 \<and> snd (50::nat, 50::nat) < 300
     \<and> (\<exists>res g trace. play 9 [(50, 50)] Grid_init = Some (Inr res, g, trace)
           \<and> (\<forall>s\<in>set (Grid_init # trace).
                 x_count s - o_count s = - 1 \<or> x_count s - o_count s = 0))"
proof -
  have a: "(8::nat) < 9" by simp
  have b: "\<forall>mouse\<in>set [(50::nat, 50::nat)]. fst mouse < 300 \<and> snd mouse < 300" by simp
  from balance_during_play[OF a b] a show ?thesis by simp
qed

text \<open>
  The claim as written (the difference is \<open>0\<close> or \<open>1\<close>) fails after the first click: the
  human has put an \<open>O\<close> on the grid and the program has not yet moved.
\<close>

theorem balance_zero_or_one_counterexample:
  "\<not> (\<forall>fuel clicks res g trace.
         play fuel clicks Grid_init = Some (res, g, trace) \<longrightarrow>
         (\<forall>s\<in>set (Grid_init # trace). x_count s - o_count s = 0 \<or> x_count s - o_count s = 1))"
proof
  assume claim: "\<forall>fuel clicks res g trace.
         play fuel clicks Grid_init = Some (res, g, trace) \<longrightarrow>
         (\<forall>s\<in>set (Grid_init # trace). x_count s - o_count s = 0 \<or> x_count s - o_count s = 1)"
  from first_click_trace obtain res g1 trace
    where "play 9 [(50, 50)] Grid_init
             = Some (Inr res, g1, placed Grid_init (0, 0) Mark_O # trace)"
    by blast
  with claim have "x_count (placed Grid_init (0, 0) Mark_O) - o_count (placed Grid_init (0, 0) Mark_O) = 0
      \<or> x_count (placed Grid_init (0, 0) Mark_O) - o_count (placed Grid_init (0, 0) Mark_O) = 1"
    by fastforce
  then show False by (simp add: placed_def Grid_init_def)
qed

end
